theory Spec2Isabelle
  imports Main "HOL-Library.AList" "HOL-Library.Multiset"
begin

section \<open>Characters, strings and exceptions\<close>

text \<open>
  A Python \<open>str\<close> is a sequence of Unicode code points, and the program compares and stores
  single-character strings only. A character is modelled by its code point; \<open>str\<close> reads an
  ASCII literal as such a sequence. The epsilon label of the program is the ordinary
  one-character string U+03B5, of the same type as every literal label.
\<close>

type_synonym pychar = nat

definition str :: "string \<Rightarrow> pychar list" where
  "str s = map of_char s"

abbreviation LPAREN :: pychar where "LPAREN \<equiv> 40"
abbreviation RPAREN :: pychar where "RPAREN \<equiv> 41"
abbreviation STAR :: pychar where "STAR \<equiv> 42"
abbreviation PLUS :: pychar where "PLUS \<equiv> 43"
abbreviation DOT :: pychar where "DOT \<equiv> 46"
abbreviation QMARK :: pychar where "QMARK \<equiv> 63"
abbreviation BAR :: pychar where "BAR \<equiv> 124"
abbreviation EPS :: pychar where "EPS \<equiv> 949"

text \<open>
  The exceptions the program can raise: \<open>list.pop\<close> on an empty list (IndexError), a
  missing key of the precedence dictionary (KeyError), and the two \<open>ValueError\<close>s of
  \<open>postfix_to_nfa\<close>, told apart by their message.
\<close>

datatype value_error = Unexpected_symbol pychar | Invalid_postfix

datatype exn = IndexError | KeyError pychar | ValueError value_error

section \<open>infix_to_postfix\<close>

text \<open>Step 1: the loop over \<open>range(length)\<close> that appends \<open>c\<close> and, when there is a next
  character, the explicit concatenation operator.\<close>

fun insert_concat :: "pychar list \<Rightarrow> pychar list" where
  "insert_concat [] = []"
| "insert_concat [c] = [c]"
| "insert_concat (c # nxt # rest) =
     (if c \<notin> set [LPAREN, BAR] \<and> nxt \<notin> set [RPAREN, BAR, STAR, PLUS, QMARK]
      then c # DOT # insert_concat (nxt # rest)
      else c # insert_concat (nxt # rest))"

text \<open>The precedence dictionary; a missing key raises KeyError.\<close>

definition precedence :: "pychar \<Rightarrow> nat option" where
  "precedence = map_of [(STAR, 3), (PLUS, 3), (QMARK, 3), (DOT, 2), (BAR, 1), (LPAREN, 0)]"

text \<open>
  The operator stack is a list whose head is the top; the output is a list that grows at its
  end. \<open>pop_until_lparen\<close> is the closing-marker branch: \<open>top = stack.pop()\<close>, then the
  loop \<open>while top != '('\<close>. Popping the empty stack raises IndexError.
\<close>

fun pop_until_lparen :: "pychar list \<Rightarrow> pychar list \<Rightarrow> exn + (pychar list \<times> pychar list)" where
  "pop_until_lparen out [] = Inl IndexError"
| "pop_until_lparen out (tp # stack) =
     (if tp \<noteq> LPAREN then pop_until_lparen (out @ [tp]) stack else Inr (out, stack))"

text \<open>The loop \<open>while stack and precedence[stack[-1]] >= precedence[char]\<close>.\<close>

fun pop_ops :: "pychar \<Rightarrow> pychar list \<Rightarrow> pychar list \<Rightarrow> exn + (pychar list \<times> pychar list)" where
  "pop_ops c out [] = Inr (out, [])"
| "pop_ops c out (tp # stack) =
     (case precedence tp of
        None \<Rightarrow> Inl (KeyError tp)
      | Some pt \<Rightarrow>
          (case precedence c of
             None \<Rightarrow> Inl (KeyError c)
           | Some pc \<Rightarrow>
               if pt \<ge> pc then pop_ops c (out @ [tp]) stack else Inr (out, tp # stack)))"

text \<open>Step 2: the loop \<open>for char in regex\<close> over the string with explicit concatenation.\<close>

fun shunt :: "pychar list \<Rightarrow> pychar list \<Rightarrow> pychar list \<Rightarrow> exn + (pychar list \<times> pychar list)" where
  "shunt [] out stack = Inr (out, stack)"
| "shunt (c # cs) out stack =
     (if c = LPAREN then shunt cs out (c # stack)
      else if c = RPAREN then
        (case pop_until_lparen out stack of
           Inl e \<Rightarrow> Inl e
         | Inr (out', stack') \<Rightarrow> shunt cs out' stack')
      else if c \<in> set [STAR, PLUS, QMARK, DOT, BAR] then
        (case pop_ops c out stack of
           Inl e \<Rightarrow> Inl e
         | Inr (out', stack') \<Rightarrow> shunt cs out' (c # stack'))
      else shunt cs (out @ [c]) stack)"

text \<open>The whole function; the last loop pops every remaining operator to the output.\<close>

definition infix_to_postfix :: "pychar list \<Rightarrow> exn + pychar list" where
  "infix_to_postfix regex =
     (case shunt (insert_concat regex) [] [] of
        Inl e \<Rightarrow> Inl e
      | Inr (out, stack) \<Rightarrow> Inr (out @ stack))"

section \<open>The class NFA\<close>

text \<open>
  A dictionary is an association list in insertion order with distinct keys, as a Python
  \<open>dict\<close> is; \<open>AList.update\<close> replaces the value of a present key in place and appends an
  absent key at the end. A destination set is a set of state identifiers.
\<close>

type_synonym inner = "(pychar \<times> nat set) list"
type_synonym table = "(nat \<times> inner) list"

record NFA =
  start_state :: nat
  accept_state :: nat
  transitions :: table

definition add_transition :: "table \<Rightarrow> nat \<Rightarrow> pychar \<Rightarrow> nat \<Rightarrow> table" where
  "add_transition T from_state symbol to_state =
     (let row = (case map_of T from_state of None \<Rightarrow> [] | Some m \<Rightarrow> m);
          dests = (case map_of row symbol of None \<Rightarrow> {} | Some D \<Rightarrow> D)
      in AList.update from_state (AList.update symbol (insert to_state dests) row) T)"

section \<open>postfix_to_nfa\<close>

text \<open>
  The inner loop of the merge in the concatenation and union rules:
  \<open>for symbol, destinations in nfa2.transitions[state].items()\<close>, which creates the row and
  the destination set when absent and then \<open>update\<close>s the set with \<open>destinations\<close>.
\<close>

fun merge_row :: "nat \<Rightarrow> inner \<Rightarrow> table \<Rightarrow> table" where
  "merge_row state [] T = T"
| "merge_row state ((symbol, destinations) # rest) T =
     merge_row state rest
       (let row = (case map_of T state of None \<Rightarrow> [] | Some m \<Rightarrow> m);
            dests = (case map_of row symbol of None \<Rightarrow> {} | Some D \<Rightarrow> D)
        in AList.update state (AList.update symbol (dests \<union> destinations) row) T)"

text \<open>The outer loop \<open>for state in nfa2.transitions\<close>.\<close>

fun merge_table :: "table \<Rightarrow> table \<Rightarrow> table" where
  "merge_table [] T = T"
| "merge_table ((state, row) # rest) T = merge_table rest (merge_row state row T)"

text \<open>
  One iteration of \<open>for char in postfix\<close>. The state is the fragment stack (head = top) and
  the counter \<open>next_state_id[0]\<close>; \<open>new_state()\<close> returns the counter and increments it.
  The branches are in the order of the source, the last one being its \<open>else\<close>.
\<close>

definition eval_token :: "pychar \<Rightarrow> NFA list \<times> nat \<Rightarrow> exn + (NFA list \<times> nat)" where
  "eval_token c = (\<lambda>(stack, n).
     if c \<notin> set [STAR, PLUS, QMARK, DOT, BAR] then
       (let start = n; accept = n + 1
        in Inr (\<lparr>start_state = start, accept_state = accept,
                 transitions = add_transition [] start c accept\<rparr> # stack, n + 2))
     else if c = STAR then
       (case stack of
          [] \<Rightarrow> Inl IndexError
        | nfa1 # stack' \<Rightarrow>
            (let start = n; accept = n + 1;
                 T = transitions nfa1;
                 T = add_transition T start EPS (start_state nfa1);
                 T = add_transition T (accept_state nfa1) EPS (start_state nfa1);
                 T = add_transition T start EPS accept;
                 T = add_transition T (accept_state nfa1) EPS accept
             in Inr (\<lparr>start_state = start, accept_state = accept, transitions = T\<rparr> # stack',
                     n + 2)))
     else if c = PLUS then
       (case stack of
          [] \<Rightarrow> Inl IndexError
        | nfa1 # stack' \<Rightarrow>
            (let start = n; accept = n + 1;
                 T = transitions nfa1;
                 T = add_transition T start EPS (start_state nfa1);
                 T = add_transition T (accept_state nfa1) EPS (start_state nfa1);
                 T = add_transition T (accept_state nfa1) EPS accept
             in Inr (\<lparr>start_state = start, accept_state = accept, transitions = T\<rparr> # stack',
                     n + 2)))
     else if c = QMARK then
       (case stack of
          [] \<Rightarrow> Inl IndexError
        | nfa1 # stack' \<Rightarrow>
            (let start = n; accept = n + 1;
                 T = transitions nfa1;
                 T = add_transition T start EPS (start_state nfa1);
                 T = add_transition T (accept_state nfa1) EPS accept;
                 T = add_transition T start EPS accept
             in Inr (\<lparr>start_state = start, accept_state = accept, transitions = T\<rparr> # stack',
                     n + 2)))
     else if c = DOT then
       (case stack of
          nfa2 # nfa1 # stack' \<Rightarrow>
            (let T = transitions nfa1;
                 T = merge_table (transitions nfa2) T;
                 T = add_transition T (accept_state nfa1) EPS (start_state nfa2)
             in Inr (\<lparr>start_state = start_state nfa1, accept_state = accept_state nfa2,
                      transitions = T\<rparr> # stack', n))
        | _ \<Rightarrow> Inl IndexError)
     else if c = BAR then
       (case stack of
          nfa2 # nfa1 # stack' \<Rightarrow>
            (let start = n; accept = n + 1;
                 T = transitions nfa1;
                 T = merge_table (transitions nfa2) T;
                 T = add_transition T start EPS (start_state nfa1);
                 T = add_transition T start EPS (start_state nfa2);
                 T = add_transition T (accept_state nfa1) EPS accept;
                 T = add_transition T (accept_state nfa2) EPS accept
             in Inr (\<lparr>start_state = start, accept_state = accept, transitions = T\<rparr> # stack',
                     n + 2))
        | _ \<Rightarrow> Inl IndexError)
     else Inl (ValueError (Unexpected_symbol c)))"

fun eval_tokens :: "pychar list \<Rightarrow> NFA list \<times> nat \<Rightarrow> exn + (NFA list \<times> nat)" where
  "eval_tokens [] s = Inr s"
| "eval_tokens (c # cs) s =
     (case eval_token c s of Inl e \<Rightarrow> Inl e | Inr s' \<Rightarrow> eval_tokens cs s')"

definition postfix_to_nfa :: "pychar list \<Rightarrow> exn + NFA" where
  "postfix_to_nfa postfix =
     (case eval_tokens postfix ([], 0) of
        Inl e \<Rightarrow> Inl e
      | Inr (stack, n) \<Rightarrow>
          if length stack \<noteq> 1 then Inl (ValueError Invalid_postfix) else Inr (hd stack))"

section \<open>regex_to_nfa\<close>

definition regex_to_nfa :: "pychar list \<Rightarrow> exn + NFA" where
  "regex_to_nfa regex =
     (case infix_to_postfix regex of
        Inl e \<Rightarrow> Inl e
      | Inr postfix \<Rightarrow> postfix_to_nfa postfix)"

section \<open>Reading an automaton\<close>

text \<open>
  \<open>dests T s l\<close> is the set \<open>T[s][l]\<close>, empty when a key is missing. \<open>edges\<close> enumerates the
  table as the program's own printing loop does: every state key, every symbol of its row,
  every destination. \<open>states_of\<close> collects every state identifier an automaton mentions.
\<close>

definition row_of :: "table \<Rightarrow> nat \<Rightarrow> inner" where
  "row_of T s = (case map_of T s of None \<Rightarrow> [] | Some m \<Rightarrow> m)"

definition table_keys :: "table \<Rightarrow> nat set" where
  "table_keys T = fst ` set T"

definition dests :: "table \<Rightarrow> nat \<Rightarrow> pychar \<Rightarrow> nat set" where
  "dests T s l = (case map_of (row_of T s) l of None \<Rightarrow> {} | Some D \<Rightarrow> D)"

definition edges :: "table \<Rightarrow> (nat \<times> pychar \<times> nat) set" where
  "edges T =
     (\<Union>s \<in> table_keys T. \<Union>l \<in> fst ` set (row_of T s). (\<lambda>d. (s, l, d)) ` dests T s l)"

definition states_of :: "NFA \<Rightarrow> nat set" where
  "states_of N =
     insert (start_state N) (insert (accept_state N)
       (table_keys (transitions N) \<union> (\<lambda>(s, l, d). d) ` edges (transitions N)))"

definition non_epsilon_transitions :: "NFA \<Rightarrow> nat" where
  "non_epsilon_transitions N = card (Set.filter (\<lambda>(s, l, d). l \<noteq> EPS) (edges (transitions N)))"

text \<open>
  Acceptance of a word by an automaton, in the standard way: the set of current states
  starts as the epsilon-closure of the start state; reading a character moves along the
  transitions labelled by it and closes the result under epsilon transitions; the word is
  accepted when the accept state is among the states reached at its end.
\<close>

definition eps_rel :: "table \<Rightarrow> (nat \<times> nat) set" where
  "eps_rel T = {(p, q). q \<in> dests T p EPS}"

definition eps_closure :: "table \<Rightarrow> nat set \<Rightarrow> nat set" where
  "eps_closure T S = (eps_rel T)\<^sup>* `` S"

definition move :: "table \<Rightarrow> nat set \<Rightarrow> pychar \<Rightarrow> nat set" where
  "move T S c = (\<Union>p \<in> S. dests T p c)"

fun run :: "table \<Rightarrow> nat set \<Rightarrow> pychar list \<Rightarrow> nat set" where
  "run T S [] = S"
| "run T S (c # w) = run T (eps_closure T (move T S c)) w"

definition accepts :: "NFA \<Rightarrow> pychar list \<Rightarrow> bool" where
  "accepts N w =
     (accept_state N \<in> run (transitions N) (eps_closure (transitions N) {start_state N}) w)"

text \<open>
  The specification names three kinds of error. The program defines no exception class of
  its own: it raises two \<open>ValueError\<close>s, whose messages are those of the unexpected-symbol
  and the invalid-postfix kind, and otherwise fails inside the built-in containers, with an
  exception that carries no kind.
\<close>

datatype error_kind = MalformedExpressionError | UnexpectedSymbolError | InvalidPostfixError

fun kind_of :: "exn \<Rightarrow> error_kind option" where
  "kind_of (ValueError (Unexpected_symbol c)) = Some UnexpectedSymbolError"
| "kind_of (ValueError Invalid_postfix) = Some InvalidPostfixError"
| "kind_of IndexError = None"
| "kind_of (KeyError c) = None"

text \<open>
  A closing group marker with no matching opening marker: scanning left to right with the
  number \<open>d\<close> of markers currently open, a closing marker is met at depth zero.
\<close>

fun unmatched_close :: "nat \<Rightarrow> pychar list \<Rightarrow> bool" where
  "unmatched_close d [] = False"
| "unmatched_close d (c # cs) =
     (if c = LPAREN then unmatched_close (Suc d) cs
      else if c = RPAREN then (d = 0 \<or> unmatched_close (d - 1) cs)
      else unmatched_close d cs)"

text \<open>
  The literal characters of an expression are those that are none of the operator symbols
  of the program, nor the special symbol that the class \<open>NFA\<close> keeps for epsilon
  transitions. The grouping markers of an expression are balanced when, scanning left to
  right, no closing marker is met at depth zero and the depth is zero at the end.
\<close>

definition literal_char :: "pychar \<Rightarrow> bool" where
  "literal_char c = (c \<notin> set [STAR, PLUS, QMARK, BAR, DOT, LPAREN, RPAREN, EPS])"

fun balanced :: "nat \<Rightarrow> pychar list \<Rightarrow> bool" where
  "balanced d [] = (d = 0)"
| "balanced d (c # cs) =
     (if c = LPAREN then balanced (Suc d) cs
      else if c = RPAREN then (0 < d \<and> balanced (d - 1) cs)
      else balanced d cs)"

section \<open>Invariants of the construction\<close>

text \<open>The operator stack holds operators and opening markers only.\<close>

definition op_stack :: "pychar list \<Rightarrow> bool" where
  "op_stack st = (set st \<subseteq> set [LPAREN, STAR, PLUS, QMARK, DOT, BAR])"

text \<open>
  A table is a dictionary of dictionaries: keys are distinct at both levels. A fragment on
  the evaluator's stack has such a table with finitely many transitions, mentions only states
  below the counter, and its accept state has no outgoing transition. The fragments of a
  stack mention pairwise disjoint sets of states.
\<close>

definition wf_table :: "table \<Rightarrow> bool" where
  "wf_table T = (distinct (map fst T) \<and> (\<forall>row \<in> snd ` set T. distinct (map fst row)))"

definition frag_ok :: "nat \<Rightarrow> NFA \<Rightarrow> bool" where
  "frag_ok n F =
     (wf_table (transitions F) \<and> finite (edges (transitions F)) \<and> states_of F \<subseteq> {..<n}
      \<and> accept_state F \<notin> table_keys (transitions F))"

fun stack_ok :: "nat \<Rightarrow> NFA list \<Rightarrow> bool" where
  "stack_ok n [] = True"
| "stack_ok n (F # stack) =
     (frag_ok n F \<and> (\<forall>G \<in> set stack. states_of F \<inter> states_of G = {}) \<and> stack_ok n stack)"

text \<open>The transitions with a label other than the epsilon marker, over a whole stack.\<close>

definition literal_edges :: "NFA list \<Rightarrow> (nat \<times> pychar \<times> nat) set" where
  "literal_edges stack =
     (\<Union>F \<in> set stack. Set.filter (\<lambda>(s, l, d). l \<noteq> EPS) (edges (transitions F)))"

section \<open>The construction on a store of dictionaries and sets\<close>

text \<open>
  In the program every dictionary and every set is an object, and \<open>dict(nfa1.transitions)\<close>
  copies the outer dictionary only: the rows (inner dictionaries) and the destination sets of
  the copy are the objects of the original. To tell which objects two fragments share, the
  construction is modelled a second time on a store: an outer dictionary maps a state to the
  address of a row, a row maps a symbol to the address of a destination set, and
  \<open>next_addr\<close> is the first address not yet given to an object.
\<close>

record heap =
  outer_of :: "nat \<Rightarrow> (nat \<times> nat) list"
  inner_of :: "nat \<Rightarrow> (pychar \<times> nat) list"
  set_of :: "nat \<Rightarrow> nat set"
  next_addr :: nat

definition empty_heap :: heap where
  "empty_heap = \<lparr>outer_of = (\<lambda>a. []), inner_of = (\<lambda>a. []), set_of = (\<lambda>a. {}), next_addr = 0\<rparr>"

text \<open>An \<open>NFA\<close> object: its two states and the address of its outer dictionary.\<close>

record fragment =
  frag_start :: nat
  frag_accept :: nat
  frag_table :: nat

text \<open>
  The three statements that \<open>add_transition\<close> and the body of the merge loops share, on the
  outer dictionary at address \<open>t\<close>: create the row when the state is absent, create the
  destination set when the symbol is absent, then add the destinations \<open>D\<close> to the set.
\<close>

definition store_h :: "heap \<Rightarrow> nat \<Rightarrow> nat \<Rightarrow> pychar \<Rightarrow> nat set \<Rightarrow> heap" where
  "store_h h t state symbol D =
     (case map_of (outer_of h t) state of
        None \<Rightarrow>
          (let ia = next_addr h; sa = next_addr h + 1
           in h\<lparr>outer_of := (outer_of h)(t := outer_of h t @ [(state, ia)]),
                inner_of := (inner_of h)(ia := [(symbol, sa)]),
                set_of := (set_of h)(sa := D),
                next_addr := next_addr h + 2\<rparr>)
      | Some ia \<Rightarrow>
          (case map_of (inner_of h ia) symbol of
             None \<Rightarrow>
               (let sa = next_addr h
                in h\<lparr>inner_of := (inner_of h)(ia := inner_of h ia @ [(symbol, sa)]),
                     set_of := (set_of h)(sa := D),
                     next_addr := next_addr h + 1\<rparr>)
           | Some sa \<Rightarrow> h\<lparr>set_of := (set_of h)(sa := set_of h sa \<union> D)\<rparr>))"

definition add_transition_h :: "heap \<Rightarrow> nat \<Rightarrow> nat \<Rightarrow> pychar \<Rightarrow> nat \<Rightarrow> heap" where
  "add_transition_h h t from_state symbol to_state = store_h h t from_state symbol {to_state}"

text \<open>\<open>NFA(start, accept)\<close> creates an empty outer dictionary; \<open>dict(d)\<close> creates an outer
  dictionary with the entries of \<open>d\<close>, that is, with the addresses of the rows of \<open>d\<close>.\<close>

definition new_dict :: "heap \<Rightarrow> heap \<times> nat" where
  "new_dict h =
     (h\<lparr>outer_of := (outer_of h)(next_addr h := []), next_addr := next_addr h + 1\<rparr>,
      next_addr h)"

definition copy_dict :: "heap \<Rightarrow> nat \<Rightarrow> heap \<times> nat" where
  "copy_dict h t =
     (h\<lparr>outer_of := (outer_of h)(next_addr h := outer_of h t), next_addr := next_addr h + 1\<rparr>,
      next_addr h)"

text \<open>The merge loops: \<open>update(destinations)\<close> reads the set of \<open>nfa2\<close> as it is in the store at
  that moment.\<close>

fun merge_row_h :: "heap \<Rightarrow> nat \<Rightarrow> nat \<Rightarrow> (pychar \<times> nat) list \<Rightarrow> heap" where
  "merge_row_h h t state [] = h"
| "merge_row_h h t state ((symbol, sa) # rest) =
     merge_row_h (store_h h t state symbol (set_of h sa)) t state rest"

fun merge_states_h :: "heap \<Rightarrow> nat \<Rightarrow> (nat \<times> nat) list \<Rightarrow> heap" where
  "merge_states_h h t [] = h"
| "merge_states_h h t ((state, ia) # rest) =
     merge_states_h (merge_row_h h t state (inner_of h ia)) t rest"

definition merge_table_h :: "heap \<Rightarrow> nat \<Rightarrow> nat \<Rightarrow> heap" where
  "merge_table_h h t t2 = merge_states_h h t (outer_of h t2)"

definition eval_token_h ::
  "pychar \<Rightarrow> heap \<times> fragment list \<times> nat \<Rightarrow> exn + (heap \<times> fragment list \<times> nat)" where
  "eval_token_h c = (\<lambda>(h, stack, n).
     if c \<notin> set [STAR, PLUS, QMARK, DOT, BAR] then
       (let start = n; accept = n + 1;
            (h, t) = new_dict h;
            h = add_transition_h h t start c accept
        in Inr (h, \<lparr>frag_start = start, frag_accept = accept, frag_table = t\<rparr> # stack, n + 2))
     else if c = STAR then
       (case stack of
          [] \<Rightarrow> Inl IndexError
        | nfa1 # stack' \<Rightarrow>
            (let start = n; accept = n + 1;
                 (h, t) = copy_dict h (frag_table nfa1);
                 h = add_transition_h h t start EPS (frag_start nfa1);
                 h = add_transition_h h t (frag_accept nfa1) EPS (frag_start nfa1);
                 h = add_transition_h h t start EPS accept;
                 h = add_transition_h h t (frag_accept nfa1) EPS accept
             in Inr (h, \<lparr>frag_start = start, frag_accept = accept, frag_table = t\<rparr> # stack',
                     n + 2)))
     else if c = PLUS then
       (case stack of
          [] \<Rightarrow> Inl IndexError
        | nfa1 # stack' \<Rightarrow>
            (let start = n; accept = n + 1;
                 (h, t) = copy_dict h (frag_table nfa1);
                 h = add_transition_h h t start EPS (frag_start nfa1);
                 h = add_transition_h h t (frag_accept nfa1) EPS (frag_start nfa1);
                 h = add_transition_h h t (frag_accept nfa1) EPS accept
             in Inr (h, \<lparr>frag_start = start, frag_accept = accept, frag_table = t\<rparr> # stack',
                     n + 2)))
     else if c = QMARK then
       (case stack of
          [] \<Rightarrow> Inl IndexError
        | nfa1 # stack' \<Rightarrow>
            (let start = n; accept = n + 1;
                 (h, t) = copy_dict h (frag_table nfa1);
                 h = add_transition_h h t start EPS (frag_start nfa1);
                 h = add_transition_h h t (frag_accept nfa1) EPS accept;
                 h = add_transition_h h t start EPS accept
             in Inr (h, \<lparr>frag_start = start, frag_accept = accept, frag_table = t\<rparr> # stack',
                     n + 2)))
     else if c = DOT then
       (case stack of
          nfa2 # nfa1 # stack' \<Rightarrow>
            (let (h, t) = copy_dict h (frag_table nfa1);
                 h = merge_table_h h t (frag_table nfa2);
                 h = add_transition_h h t (frag_accept nfa1) EPS (frag_start nfa2)
             in Inr (h, \<lparr>frag_start = frag_start nfa1, frag_accept = frag_accept nfa2,
                         frag_table = t\<rparr> # stack', n))
        | _ \<Rightarrow> Inl IndexError)
     else if c = BAR then
       (case stack of
          nfa2 # nfa1 # stack' \<Rightarrow>
            (let start = n; accept = n + 1;
                 (h, t) = copy_dict h (frag_table nfa1);
                 h = merge_table_h h t (frag_table nfa2);
                 h = add_transition_h h t start EPS (frag_start nfa1);
                 h = add_transition_h h t start EPS (frag_start nfa2);
                 h = add_transition_h h t (frag_accept nfa1) EPS accept;
                 h = add_transition_h h t (frag_accept nfa2) EPS accept
             in Inr (h, \<lparr>frag_start = start, frag_accept = accept, frag_table = t\<rparr> # stack',
                     n + 2))
        | _ \<Rightarrow> Inl IndexError)
     else Inl (ValueError (Unexpected_symbol c)))"

fun eval_tokens_h ::
  "pychar list \<Rightarrow> heap \<times> fragment list \<times> nat \<Rightarrow> exn + (heap \<times> fragment list \<times> nat)" where
  "eval_tokens_h [] s = Inr s"
| "eval_tokens_h (c # cs) s =
     (case eval_token_h c s of Inl e \<Rightarrow> Inl e | Inr s' \<Rightarrow> eval_tokens_h cs s')"

text \<open>
  The automaton a fragment stands for in a store: each address is replaced by the object
  stored there.
\<close>

definition table_of :: "heap \<Rightarrow> nat \<Rightarrow> table" where
  "table_of h t =
     map (\<lambda>(s, ia). (s, map (\<lambda>(l, sa). (l, set_of h sa)) (inner_of h ia))) (outer_of h t)"

definition nfa_of :: "heap \<Rightarrow> fragment \<Rightarrow> NFA" where
  "nfa_of h F =
     \<lparr>start_state = frag_start F, accept_state = frag_accept F,
      transitions = table_of h (frag_table F)\<rparr>"

text \<open>
  The rows and the destination sets of the outer dictionary at address \<open>t\<close>. Two fragments
  are separate when they have different outer dictionaries, no row in common and no
  destination set in common.
\<close>

definition inner_addrs :: "heap \<Rightarrow> nat \<Rightarrow> nat set" where
  "inner_addrs h t = snd ` set (outer_of h t)"

definition set_addrs :: "heap \<Rightarrow> nat \<Rightarrow> nat set" where
  "set_addrs h t = (\<Union>ia \<in> inner_addrs h t. snd ` set (inner_of h ia))"

definition separate :: "heap \<Rightarrow> fragment \<Rightarrow> fragment \<Rightarrow> bool" where
  "separate h F G =
     (frag_table F \<noteq> frag_table G
      \<and> inner_addrs h (frag_table F) \<inter> inner_addrs h (frag_table G) = {}
      \<and> set_addrs h (frag_table F) \<inter> set_addrs h (frag_table G) = {})"

fun all_separate :: "heap \<Rightarrow> fragment list \<Rightarrow> bool" where
  "all_separate h [] = True"
| "all_separate h (F # stack) = ((\<forall>G \<in> set stack. separate h F G) \<and> all_separate h stack)"

text \<open>An outer dictionary whose objects all lie below \<open>next_addr\<close>.\<close>

definition allocated :: "heap \<Rightarrow> nat \<Rightarrow> bool" where
  "allocated h t =
     (t < next_addr h \<and> inner_addrs h t \<subseteq> {..<next_addr h} \<and> set_addrs h t \<subseteq> {..<next_addr h})"

definition heap_ok :: "heap \<Rightarrow> fragment list \<Rightarrow> bool" where
  "heap_ok h stack = ((\<forall>F \<in> set stack. allocated h (frag_table F)) \<and> all_separate h stack)"

text \<open>
  \<open>within t h h'\<close>: from \<open>h\<close> to \<open>h'\<close> only objects of the outer dictionary at \<open>t\<close>, and objects
  created since, were written, and that dictionary gained only objects created since.
\<close>

definition within :: "nat \<Rightarrow> heap \<Rightarrow> heap \<Rightarrow> bool" where
  "within t h h' =
     (next_addr h \<le> next_addr h'
      \<and> (\<forall>u. u \<noteq> t \<longrightarrow> outer_of h' u = outer_of h u)
      \<and> (\<forall>ia. ia < next_addr h \<longrightarrow> ia \<notin> inner_addrs h t \<longrightarrow> inner_of h' ia = inner_of h ia)
      \<and> (\<forall>sa. sa < next_addr h \<longrightarrow> sa \<notin> set_addrs h t \<longrightarrow> set_of h' sa = set_of h sa)
      \<and> inner_addrs h' t \<subseteq> inner_addrs h t \<union> {next_addr h..<next_addr h'}
      \<and> set_addrs h' t \<subseteq> set_addrs h t \<union> {next_addr h..<next_addr h'})"

text \<open>\<open>same_on u h h'\<close>: no object of the outer dictionary at \<open>u\<close> was written from \<open>h\<close> to
  \<open>h'\<close>.\<close>

definition same_on :: "nat \<Rightarrow> heap \<Rightarrow> heap \<Rightarrow> bool" where
  "same_on u h h' =
     (outer_of h' u = outer_of h u
      \<and> (\<forall>ia \<in> inner_addrs h u. inner_of h' ia = inner_of h ia)
      \<and> (\<forall>sa \<in> set_addrs h u. set_of h' sa = set_of h sa))"

text \<open>
  The construction on the store as a whole, as \<open>postfix_to_nfa\<close> is on tables.
\<close>

definition postfix_to_nfa_h :: "pychar list \<Rightarrow> exn + (heap \<times> fragment)" where
  "postfix_to_nfa_h postfix =
     (case eval_tokens_h postfix (empty_heap, [], 0) of
        Inl e \<Rightarrow> Inl e
      | Inr (h, stack, n) \<Rightarrow>
          if length stack \<noteq> 1 then Inl (ValueError Invalid_postfix) else Inr (h, hd stack))"

text \<open>
  For the comparison of the two constructions: the row stored at an address; the three
  statements of \<open>store_h\<close> on a table; a table of the store in which no row and no
  destination set is used twice.
\<close>

definition row_at :: "heap \<Rightarrow> nat \<Rightarrow> inner" where
  "row_at h ia = map (\<lambda>(l, sa). (l, set_of h sa)) (inner_of h ia)"

definition table_store :: "table \<Rightarrow> nat \<Rightarrow> pychar \<Rightarrow> nat set \<Rightarrow> table" where
  "table_store T s l D = AList.update s (AList.update l (dests T s l \<union> D) (row_of T s)) T"

definition table_inj :: "heap \<Rightarrow> nat \<Rightarrow> bool" where
  "table_inj h t =
     (distinct (map fst (outer_of h t)) \<and> distinct (map snd (outer_of h t))
      \<and> (\<forall>ia \<in> inner_addrs h t.
            distinct (map fst (inner_of h ia)) \<and> distinct (map snd (inner_of h ia)))
      \<and> (\<forall>ia \<in> inner_addrs h t. \<forall>ib \<in> inner_addrs h t.
            ia \<noteq> ib \<longrightarrow> snd ` set (inner_of h ia) \<inter> snd ` set (inner_of h ib) = {}))"

definition store_ok :: "heap \<Rightarrow> fragment list \<Rightarrow> bool" where
  "store_ok h stack = (heap_ok h stack \<and> (\<forall>F \<in> set stack. table_inj h (frag_table F)))"

section \<open>Well-formed expressions\<close>

text \<open>
  A well-formed expression, read left to right: an operand is a literal character or a group
  in grouping markers that holds a well-formed expression; a repetition operator follows an
  operand; the alternation operator stands between two operands; an operand may follow an
  operand directly (concatenation). \<open>have\<close> tells whether an operand has just ended, \<open>d\<close> is the
  number of groups open.
\<close>

fun well_formed_from :: "bool \<Rightarrow> nat \<Rightarrow> pychar list \<Rightarrow> bool" where
  "well_formed_from have d [] = (have \<and> d = 0)"
| "well_formed_from have d (c # cs) =
     (if c = LPAREN then well_formed_from False (Suc d) cs
      else if literal_char c then well_formed_from True d cs
      else if have then
        (if c \<in> set [STAR, PLUS, QMARK] then well_formed_from True d cs
         else if c = BAR then well_formed_from False d cs
         else if c = RPAREN then 0 < d \<and> well_formed_from True (d - 1) cs
         else False)
      else False)"

definition well_formed :: "pychar list \<Rightarrow> bool" where
  "well_formed regex = well_formed_from False 0 regex"

text \<open>
  The number of fragments on the evaluator's stack after a token, when the token finds the
  operands it pops; \<open>pending\<close> counts the binary operators of an operator stack.
\<close>

definition token_depth :: "pychar \<Rightarrow> nat \<Rightarrow> nat option" where
  "token_depth c k =
     (if c \<notin> set [STAR, PLUS, QMARK, DOT, BAR] then Some (k + 1)
      else if c \<in> set [STAR, PLUS, QMARK] then (if 1 \<le> k then Some k else None)
      else (if 2 \<le> k then Some (k - 1) else None))"

fun tokens_depth :: "pychar list \<Rightarrow> nat \<Rightarrow> nat option" where
  "tokens_depth [] k = Some k"
| "tokens_depth (c # cs) k =
     (case token_depth c k of None \<Rightarrow> None | Some k' \<Rightarrow> tokens_depth cs k')"

definition pending :: "pychar list \<Rightarrow> nat" where
  "pending st = length (filter (\<lambda>c. c = DOT \<or> c = BAR) st)"

text \<open>The automaton the program builds for \<open>(a|b)?a\<close>, as it prints it.\<close>

definition example_table :: table where
  "example_table =
     [(0, [(97, {1})]), (2, [(98, {3})]), (4, [(EPS, {2, 0})]),
      (1, [(EPS, {5})]), (3, [(EPS, {5})]), (6, [(EPS, {7, 4})]),
      (5, [(EPS, {7})]), (8, [(97, {9})]), (7, [(EPS, {8})])]"

section \<open>Computing epsilon-closures\<close>

lemma eps_closure_step: "eps_closure T S = eps_closure T (S \<union> (\<Union>p \<in> S. dests T p EPS))"
proof -
  let ?R = "eps_rel T"
  have e: "(\<Union>p \<in> S. dests T p EPS) = ?R `` S" by (auto simp: eps_rel_def)
  have "?R\<^sup>* `` (S \<union> ?R `` S) = ?R\<^sup>* `` S"
    by (auto intro: converse_rtrancl_into_rtrancl)
  then show ?thesis by (simp add: eps_closure_def e)
qed

lemma eps_closure_closed:
  assumes "(\<Union>p \<in> S. dests T p EPS) \<subseteq> S"
  shows "eps_closure T S = S"
proof -
  have "q \<in> S" if "(p, q) \<in> (eps_rel T)\<^sup>*" and "p \<in> S" for p q
    using that by (induction rule: rtrancl_induct) (use assms in \<open>auto simp: eps_rel_def\<close>)
  then show ?thesis by (auto simp: eps_closure_def)
qed

lemma eps_closure_empty: "eps_closure T {} = {}"
  by (simp add: eps_closure_def)

section \<open>The example of the program: \<open>(a|b)?a\<close>\<close>

lemma example_nfa:
  "regex_to_nfa (str ''(a|b)?a'') =
     Inr \<lparr>start_state = 6, accept_state = 9, transitions = example_table\<rparr>"
  by code_simp

lemmas example_eval = dests_def row_of_def example_table_def move_def

lemma closure_start: "eps_closure example_table {6} = {0, 2, 4, 6, 7, 8}"
  apply (subst eps_closure_step, simp add: example_eval)
  apply (subst eps_closure_step, simp add: example_eval)
  apply (rule trans [OF eps_closure_closed])
   apply (simp add: example_eval)
  apply auto
  done

lemma closure_after_a: "eps_closure example_table {Suc 0, 9} = {Suc 0, 5, 7, 8, 9}"
  apply (subst eps_closure_step, simp add: example_eval)
  apply (subst eps_closure_step, simp add: example_eval)
  apply (subst eps_closure_step, simp add: example_eval)
  apply (rule trans [OF eps_closure_closed])
   apply (simp add: example_eval)
  apply auto
  done

lemma closure_after_b: "eps_closure example_table {3} = {3, 5, 7, 8}"
  apply (subst eps_closure_step, simp add: example_eval)
  apply (subst eps_closure_step, simp add: example_eval)
  apply (subst eps_closure_step, simp add: example_eval)
  apply (rule trans [OF eps_closure_closed])
   apply (simp add: example_eval)
  apply auto
  done

lemma closure_accept: "eps_closure example_table {9} = {9}"
  by (rule eps_closure_closed) (simp add: example_eval)

lemma move_start_a: "move example_table {0, 2, 4, 6, 7, 8} 97 = {Suc 0, 9}"
  by (auto simp: example_eval)

lemma move_start_b: "move example_table {0, 2, 4, 6, 7, 8} 98 = {3}"
  by (auto simp: example_eval)

lemma move_a_a: "move example_table {Suc 0, 5, 7, 8, 9} 97 = {9}"
  by (auto simp: example_eval)

lemma move_b_a: "move example_table {3, 5, 7, 8} 97 = {9}"
  by (auto simp: example_eval)

lemma move_b_b: "move example_table {3, 5, 7, 8} 98 = {}"
  by (auto simp: example_eval)

lemmas example_runs = closure_start closure_after_a closure_after_b closure_accept
  eps_closure_empty move_start_a move_start_b move_a_a move_b_a move_b_b

text \<open>
  Claim C1. For the expression \<open>(a|b)?a\<close>, \<open>regex_to_nfa\<close> returns an automaton which, under
  acceptance with epsilon-closure, accepts the words \<open>a\<close>, \<open>aa\<close> and \<open>ba\<close> and rejects the
  empty word, \<open>b\<close> and \<open>bb\<close>.
\<close>

theorem example_language:
  "\<exists>N. regex_to_nfa (str ''(a|b)?a'') = Inr N
     \<and> accepts N (str ''a'') \<and> accepts N (str ''aa'') \<and> accepts N (str ''ba'')
     \<and> \<not> accepts N (str '''') \<and> \<not> accepts N (str ''b'') \<and> \<not> accepts N (str ''bb'')"
proof -
  let ?N = "\<lparr>start_state = 6, accept_state = 9, transitions = example_table\<rparr>"
  have "accepts ?N (str ''a'')" "accepts ?N (str ''aa'')" "accepts ?N (str ''ba'')"
    "\<not> accepts ?N (str '''')" "\<not> accepts ?N (str ''b'')" "\<not> accepts ?N (str ''bb'')"
    by (simp_all add: accepts_def str_def example_runs)
  with example_nfa show ?thesis by blast
qed

text \<open>
  Claim C5. \<open>infix_to_postfix\<close> applied to \<open>(a|b)?a\<close> returns exactly the postfix string
  \<open>ab|?a.\<close>: the concatenation operator is inserted after the option operator only, and it
  pops the option operator, of higher precedence, before it is pushed.
\<close>

theorem postfix_of_example: "infix_to_postfix (str ''(a|b)?a'') = Inr (str ''ab|?a.'')"
  by (simp add: str_def infix_to_postfix_def precedence_def)

text \<open>
  Claim C10. On the empty string the postfix stream is empty, the evaluator ends with an
  empty fragment stack, and \<open>regex_to_nfa\<close> returns no automaton: it raises the
  \<open>ValueError\<close> of the final stack-size check.
\<close>

theorem empty_expression_invalid_postfix:
  "infix_to_postfix [] = Inr [] \<and> eval_tokens [] ([], 0) = Inr ([], 0)
     \<and> postfix_to_nfa [] = Inl (ValueError Invalid_postfix)
     \<and> regex_to_nfa [] = Inl (ValueError Invalid_postfix)"
  by (simp add: regex_to_nfa_def postfix_to_nfa_def infix_to_postfix_def)

text \<open>
  Claim C2, as stated: on \<open>(a\<close> the conversion raises an error of the malformed-expression
  kind. It does not: no exception the program raises there is of that kind.
\<close>

theorem unclosed_group_not_malformed_kind:
  "\<not> (\<exists>e. regex_to_nfa (str ''(a'') = Inl e \<and> kind_of e = Some MalformedExpressionError)"
  by (simp add: regex_to_nfa_def postfix_to_nfa_def eval_token_def str_def
      infix_to_postfix_def precedence_def)

text \<open>
  Claim C2, amended. On \<open>(a\<close> the opening marker left on the operator stack is emitted to the
  postfix string, which is \<open>a(\<close>; the evaluator takes the marker as a literal, ends with two
  fragments, and \<open>regex_to_nfa\<close> returns no automaton: it raises the \<open>ValueError\<close> of the
  final stack-size check, whose kind is the invalid-postfix one.
\<close>

theorem unclosed_group_invalid_postfix:
  "infix_to_postfix (str ''(a'') = Inr (str ''a('')
     \<and> regex_to_nfa (str ''(a'') = Inl (ValueError Invalid_postfix)
     \<and> kind_of (ValueError Invalid_postfix) = Some InvalidPostfixError"
  by (simp add: regex_to_nfa_def postfix_to_nfa_def eval_token_def str_def
      infix_to_postfix_def precedence_def)

text \<open>
  Claim C3. For a single character \<open>c\<close> that is none of the operator symbols of the program
  (\<open>*\<close>, \<open>+\<close>, \<open>?\<close>, \<open>|\<close>, \<open>.\<close>, \<open>(\<close>, \<open>)\<close>), \<open>regex_to_nfa\<close> returns an automaton with exactly
  two states and exactly one transition, labelled \<open>c\<close>, from its start state to its accept
  state.
\<close>

theorem single_literal:
  assumes "c \<notin> set [STAR, PLUS, QMARK, BAR, DOT, LPAREN, RPAREN]"
  shows "\<exists>N. regex_to_nfa [c] = Inr N
     \<and> transitions N = [(start_state N, [(c, {accept_state N})])]
     \<and> edges (transitions N) = {(start_state N, c, accept_state N)}
     \<and> states_of N = {start_state N, accept_state N}
     \<and> card (states_of N) = 2 \<and> card (edges (transitions N)) = 1"
  using assms
  by (simp add: regex_to_nfa_def postfix_to_nfa_def eval_token_def
      infix_to_postfix_def add_transition_def edges_def states_of_def dests_def row_of_def
      table_keys_def insert_commute)

theorem single_literal_witness:
  "(97::nat) \<notin> set [STAR, PLUS, QMARK, BAR, DOT, LPAREN, RPAREN]
   \<and> (\<exists>N. regex_to_nfa (str ''a'') = Inr N
     \<and> transitions N = [(start_state N, [(97, {accept_state N})])]
     \<and> edges (transitions N) = {(start_state N, 97, accept_state N)}
     \<and> states_of N = {start_state N, accept_state N}
     \<and> card (states_of N) = 2 \<and> card (edges (transitions N)) = 1)"
  using single_literal [of 97] by (simp add: str_def)

section \<open>Tables\<close>

lemma dests_add_transition:
  "dests (add_transition T s l d) s' l' =
     (if s' = s \<and> l' = l then insert d (dests T s l) else dests T s' l')"
  by (simp add: dests_def row_of_def add_transition_def update_conv' Let_def)

lemma keys_add_transition: "table_keys (add_transition T s l d) = insert s (table_keys T)"
  by (simp add: table_keys_def add_transition_def dom_update Let_def)

lemma mem_edges: "(s, l, d) \<in> edges T \<longleftrightarrow> d \<in> dests T s l"
proof
  assume "(s, l, d) \<in> edges T"
  then show "d \<in> dests T s l" by (auto simp: edges_def)
next
  assume d: "d \<in> dests T s l"
  then obtain D where D: "map_of (row_of T s) l = Some D"
    by (auto simp: dests_def split: option.splits)
  then have l: "l \<in> fst ` set (row_of T s)"
    by (metis domI dom_map_of_conv_image_fst)
  from D obtain m where "map_of T s = Some m"
    by (auto simp: row_of_def split: option.splits)
  then have "s \<in> table_keys T"
    unfolding table_keys_def by (metis domI dom_map_of_conv_image_fst)
  with l d show "(s, l, d) \<in> edges T" by (auto simp: edges_def)
qed

lemma edges_add_transition: "edges (add_transition T s l d) = insert (s, l, d) (edges T)"
  by (auto simp: mem_edges dests_add_transition split: if_splits)

lemma edges_Nil: "edges [] = {}"
  by (simp add: edges_def table_keys_def)

lemma keys_Nil: "table_keys [] = {}"
  by (simp add: table_keys_def)

lemma set_update_cases:
  "(k', v') \<in> set (AList.update k v al) \<Longrightarrow> (k', v') = (k, v) \<or> (k', v') \<in> set al"
  by (induction al) (auto split: if_splits)

lemma row_of_distinct: "wf_table T \<Longrightarrow> distinct (map fst (row_of T s))"
  by (auto simp: wf_table_def row_of_def split: option.splits dest!: map_of_SomeD)

lemma wf_update_row:
  assumes "wf_table T"
  shows "wf_table (AList.update s (AList.update l D (row_of T s)) T)"
proof -
  have "distinct (map fst (AList.update l D (row_of T s)))"
    using assms by (simp add: distinct_update row_of_distinct)
  then show ?thesis
    using assms by (auto simp: wf_table_def distinct_update dest!: set_update_cases)
qed

lemma dests_update_row:
  "dests (AList.update s (AList.update l D (row_of T s)) T) s' l' =
     (if s' = s \<and> l' = l then D else dests T s' l')"
  by (simp add: dests_def row_of_def update_conv')

lemma keys_update_row:
  "table_keys (AList.update s r T) = insert s (table_keys T)"
  by (simp add: table_keys_def dom_update)

lemma add_transition_alt:
  "add_transition T s l d = AList.update s (AList.update l (insert d (dests T s l)) (row_of T s)) T"
  by (simp add: add_transition_def dests_def row_of_def Let_def)

lemma wf_add_transition: "wf_table T \<Longrightarrow> wf_table (add_transition T s l d)"
  by (simp add: add_transition_alt wf_update_row)

lemma wf_Nil: "wf_table []"
  by (simp add: wf_table_def)

lemma merge_row_Cons:
  "merge_row s ((l, D) # rest) T =
     merge_row s rest (AList.update s (AList.update l (dests T s l \<union> D) (row_of T s)) T)"
  by (simp add: dests_def row_of_def Let_def)

lemma dests_merge_row:
  "dests (merge_row s row T) s' l' =
     (if s' = s then dests T s l' \<union> \<Union>{D. (l', D) \<in> set row} else dests T s' l')"
proof (induction row arbitrary: T)
  case Nil
  then show ?case by simp
next
  case (Cons e row)
  obtain l D where e: "e = (l, D)" by (cases e)
  show ?case
    unfolding e merge_row_Cons Cons.IH
    by (auto simp: dests_update_row)
qed

lemma keys_merge_row: "table_keys (merge_row s row T) \<subseteq> insert s (table_keys T)"
proof (induction row arbitrary: T)
  case Nil
  then show ?case by auto
next
  case (Cons e row)
  obtain l D where e: "e = (l, D)" by (cases e)
  show ?case
    unfolding e merge_row_Cons
    using Cons.IH [of "AList.update s (AList.update l (dests T s l \<union> D) (row_of T s)) T"]
    by (auto simp: keys_update_row)
qed

lemma wf_merge_row: "wf_table T \<Longrightarrow> wf_table (merge_row s row T)"
proof (induction row arbitrary: T)
  case Nil
  then show ?case by simp
next
  case (Cons e row)
  obtain l D where e: "e = (l, D)" by (cases e)
  show ?case
    unfolding e merge_row_Cons
    by (rule Cons.IH) (rule wf_update_row [OF Cons.prems])
qed

lemma Union_row_distinct:
  "distinct (map fst row) \<Longrightarrow>
     \<Union>{D. (l, D) \<in> set row} = (case map_of row l of None \<Rightarrow> {} | Some D \<Rightarrow> D)"
proof (cases "map_of row l")
  case None
  then have "l \<notin> fst ` set row" by (simp add: map_of_eq_None_iff)
  then have "{D. (l, D) \<in> set row} = {}" by (auto simp: image_iff)
  with None show ?thesis by simp
next
  case (Some D)
  assume "distinct (map fst row)"
  then have "{D'. (l, D') \<in> set row} = {D}"
    using Some by (auto dest: map_of_SomeD eq_key_imp_eq_value)
  with Some show ?thesis by simp
qed

lemma dests_absent: "s \<notin> table_keys T \<Longrightarrow> dests T s l = {}"
  by (simp add: table_keys_def dests_def row_of_def map_of_eq_None_iff [THEN iffD2])

lemma dests_merge_table:
  "wf_table T2 \<Longrightarrow> dests (merge_table T2 T) s l = dests T s l \<union> dests T2 s l"
proof (induction T2 arbitrary: T)
  case Nil
  then show ?case by (simp add: dests_def row_of_def)
next
  case (Cons e T2)
  obtain s0 row0 where e: "e = (s0, row0)" by (cases e)
  from Cons.prems have wf: "wf_table T2" and s0: "s0 \<notin> table_keys T2"
    and d0: "distinct (map fst row0)"
    by (auto simp: wf_table_def table_keys_def e)
  have "dests (merge_table (e # T2) T) s l = dests (merge_row s0 row0 T) s l \<union> dests T2 s l"
    by (simp add: e Cons.IH [OF wf])
  also have "\<dots> = dests T s l \<union> dests (e # T2) s l"
  proof (cases "s = s0")
    case True
    then show ?thesis
      using s0 d0
      by (simp add: dests_merge_row dests_absent Union_row_distinct)
         (simp add: e dests_def row_of_def)
  next
    case False
    then show ?thesis
      by (simp add: dests_merge_row) (simp add: e dests_def row_of_def)
  qed
  finally show ?case .
qed

lemma keys_merge_table: "table_keys (merge_table T2 T) \<subseteq> table_keys T2 \<union> table_keys T"
proof (induction T2 arbitrary: T)
  case Nil
  then show ?case by simp
next
  case (Cons e T2)
  obtain s0 row0 where e: "e = (s0, row0)" by (cases e)
  show ?case
    using Cons.IH [of "merge_row s0 row0 T"] keys_merge_row [of s0 row0 T]
    by (auto simp: e table_keys_def)
qed

lemma wf_merge_table: "wf_table T \<Longrightarrow> wf_table (merge_table T2 T)"
proof (induction T2 arbitrary: T)
  case Nil
  then show ?case by simp
next
  case (Cons e T2)
  obtain s0 row0 where e: "e = (s0, row0)" by (cases e)
  show ?case
    unfolding e merge_table.simps
    by (rule Cons.IH) (rule wf_merge_row [OF Cons.prems])
qed

lemma edges_merge_table:
  "wf_table T2 \<Longrightarrow> edges (merge_table T2 T) = edges T \<union> edges T2"
  by (auto simp: mem_edges dests_merge_table)

section \<open>The evaluator never reports an unexpected symbol\<close>

lemma eval_token_error: "eval_token c s = Inl e \<Longrightarrow> e = IndexError"
  by (cases s) (auto simp: eval_token_def Let_def split: if_splits list.splits)

lemma eval_tokens_error: "eval_tokens p s = Inl e \<Longrightarrow> e = IndexError"
  by (induction p arbitrary: s) (auto split: sum.splits dest: eval_token_error)

lemma postfix_to_nfa_error:
  "postfix_to_nfa p = Inl e \<Longrightarrow> e = IndexError \<or> e = ValueError Invalid_postfix"
  by (auto simp: postfix_to_nfa_def split: sum.splits prod.splits if_splits
      dest: eval_tokens_error)

lemma postfix_to_nfa_range:
  "postfix_to_nfa p \<in> range Inr \<union> {Inl IndexError, Inl (ValueError Invalid_postfix)}"
  using postfix_to_nfa_error [of p] by (cases "postfix_to_nfa p") auto

text \<open>
  Claim C8, as stated: some postfix input makes the evaluator raise the unexpected-symbol
  error. There is none: the first branch of the evaluator takes every token that is not one
  of the five operators as a literal, and the five later branches take the operators, so
  that the final \<open>else\<close> is never reached.
\<close>

theorem no_input_raises_unexpected_symbol:
  "\<not> (\<exists>p c. postfix_to_nfa p = Inl (ValueError (Unexpected_symbol c)))"
  using postfix_to_nfa_error by fastforce

text \<open>
  Claim C8, amended. On every postfix input the evaluator either returns an automaton or
  raises IndexError (an operator without enough operands) or the invalid-postfix
  \<open>ValueError\<close>; no token makes a step of the evaluator, and no input makes the evaluator,
  raise the unexpected-symbol \<open>ValueError\<close>.
\<close>

theorem unexpected_symbol_unreachable:
  "postfix_to_nfa p \<in> range Inr \<union> {Inl IndexError, Inl (ValueError Invalid_postfix)}
   \<and> postfix_to_nfa p \<noteq> Inl (ValueError (Unexpected_symbol c))
   \<and> eval_token c' (stack, n) \<noteq> Inl (ValueError (Unexpected_symbol c))"
  using postfix_to_nfa_range [of p] eval_token_error [of c' "(stack, n)"] by auto

section \<open>Unmatched closing markers\<close>

lemma unmatched_close_insert_concat:
  "unmatched_close d (insert_concat r) = unmatched_close d r"
  by (induction r arbitrary: d rule: insert_concat.induct) auto




lemma pop_until_lparen_none:
  "LPAREN \<notin> set st \<Longrightarrow> pop_until_lparen out st = Inl IndexError"
  by (induction st arbitrary: out) auto

lemma pop_until_lparen_error: "pop_until_lparen out st = Inl e \<Longrightarrow> e = IndexError"
  by (induction st arbitrary: out) (auto split: if_splits)

lemma pop_until_lparen_result:
  "pop_until_lparen out st = Inr (out', st') \<Longrightarrow>
     mset out' + mset st' + {#LPAREN#} = mset out + mset st \<and> set st' \<subseteq> set st
     \<and> count (mset out') LPAREN = count (mset out) LPAREN"
  by (induction st arbitrary: out) (auto split: if_splits)

lemma pop_ops_result:
  assumes "op_stack st" "c \<in> set [STAR, PLUS, QMARK, DOT, BAR]"
  shows "\<exists>out' st'. pop_ops c out st = Inr (out', st')
     \<and> mset out' + mset st' = mset out + mset st \<and> set st' \<subseteq> set st
     \<and> count (mset out') LPAREN = count (mset out) LPAREN"
  using assms
proof (induction st arbitrary: out)
  case Nil
  then show ?case by simp
next
  case (Cons tp st)
  then have st: "op_stack st" by (simp add: op_stack_def)
  from Cons.IH [OF st Cons.prems(2), of "out @ [tp]"]
  obtain out' st' where r: "pop_ops c (out @ [tp]) st = Inr (out', st')"
     "mset out' + mset st' = mset (out @ [tp]) + mset st" "set st' \<subseteq> set st"
     "count (mset out') LPAREN = count (mset (out @ [tp])) LPAREN"
    by blast
  from Cons.prems have tp: "tp \<in> set [LPAREN, STAR, PLUS, QMARK, DOT, BAR]"
    by (simp add: op_stack_def)
  show ?case
    using tp Cons.prems(2) r
    by (auto simp: precedence_def)
qed

lemma op_stack_Cons: "op_stack (c # st) \<longleftrightarrow> c \<in> set [LPAREN, STAR, PLUS, QMARK, DOT, BAR] \<and> op_stack st"
  by (simp add: op_stack_def)

lemma op_stack_subset: "op_stack st \<Longrightarrow> set st' \<subseteq> set st \<Longrightarrow> op_stack st'"
  by (auto simp: op_stack_def)

lemma pop_until_lparen_count:
  assumes "pop_until_lparen out st = Inr (out', st')"
  shows "Suc (count (mset st') LPAREN) = count (mset st) LPAREN"
proof -
  from pop_until_lparen_result [OF assms]
  have "count (mset out' + mset st' + {#LPAREN#}) LPAREN = count (mset out + mset st) LPAREN"
    and "count (mset out') LPAREN = count (mset out) LPAREN"
    by simp_all
  then show ?thesis by simp
qed

lemma pop_ops_count:
  assumes "op_stack st" "c \<in> set [STAR, PLUS, QMARK, DOT, BAR]"
    and "pop_ops c out st = Inr (out', st')"
  shows "count (mset st') LPAREN = count (mset st) LPAREN"
proof -
  from pop_ops_result [OF assms(1,2), of out] assms(3)
  have "count (mset out' + mset st') LPAREN = count (mset out + mset st) LPAREN"
    and "count (mset out') LPAREN = count (mset out) LPAREN"
    by auto
  then show ?thesis by simp
qed

lemma shunt_unmatched:
  "op_stack st \<Longrightarrow> unmatched_close (count (mset st) LPAREN) cs \<Longrightarrow>
     shunt cs out st = Inl IndexError"
proof (induction cs arbitrary: out st)
  case Nil
  then show ?case by simp
next
  case (Cons c cs)
  consider (lp) "c = LPAREN" | (rp) "c = RPAREN"
    | (op) "c \<in> set [STAR, PLUS, QMARK, DOT, BAR]"
    | (lit) "c \<noteq> LPAREN" "c \<noteq> RPAREN" "c \<notin> set [STAR, PLUS, QMARK, DOT, BAR]"
    by blast
  then show ?case
  proof cases
    case lp
    with Cons.prems have "op_stack (c # st)"
      and "unmatched_close (count (mset (c # st)) LPAREN) cs"
      by (simp_all add: op_stack_Cons)
    from Cons.IH [OF this] lp show ?thesis by simp
  next
    case rp
    show ?thesis
    proof (cases "pop_until_lparen out st")
      case (Inl e)
      with rp show ?thesis by (simp add: pop_until_lparen_error)
    next
      case (Inr r)
      obtain out' st' where r: "r = (out', st')" by (cases r)
      from Inr r have p: "pop_until_lparen out st = Inr (out', st')" by simp
      from pop_until_lparen_count [OF p]
      have n: "count (mset st) LPAREN = Suc (count (mset st') LPAREN)" by simp
      from pop_until_lparen_result [OF p] Cons.prems(1) have "op_stack st'"
        by (auto intro: op_stack_subset)
      moreover from Cons.prems(2) rp n have "unmatched_close (count (mset st') LPAREN) cs"
        by simp
      ultimately have "shunt cs out' st' = Inl IndexError" by (rule Cons.IH)
      with rp p show ?thesis by simp
    qed
  next
    case op
    from pop_ops_result [OF Cons.prems(1) op, of out]
    obtain out' st' where p: "pop_ops c out st = Inr (out', st')" and sub: "set st' \<subseteq> set st"
      by blast
    from op have ne: "c \<noteq> LPAREN" "c \<noteq> RPAREN" by auto
    have "op_stack (c # st')"
      using op sub Cons.prems(1) by (auto simp: op_stack_Cons intro: op_stack_subset)
    moreover have "unmatched_close (count (mset (c # st')) LPAREN) cs"
      using Cons.prems(2) ne pop_ops_count [OF Cons.prems(1) op p] by simp
    ultimately have "shunt cs out' (c # st') = Inl IndexError" by (rule Cons.IH)
    with op ne p show ?thesis by simp
  next
    case lit
    with Cons.prems have "unmatched_close (count (mset st) LPAREN) cs" by simp
    from Cons.IH [OF Cons.prems(1) this] lit show ?thesis by simp
  qed
qed

text \<open>
  Claim C7, amended. For every input with a closing group marker that has no matching
  opening marker, \<open>infix_to_postfix\<close>, and with it \<open>regex_to_nfa\<close>, fails with the
  IndexError of popping the empty operator stack, an exception that carries none of the
  error kinds; no automaton is returned.
\<close>

theorem unmatched_close_index_error:
  assumes "unmatched_close 0 regex"
  shows "infix_to_postfix regex = Inl IndexError \<and> regex_to_nfa regex = Inl IndexError
    \<and> kind_of IndexError = None"
proof -
  have "shunt (insert_concat regex) [] [] = Inl IndexError"
    by (rule shunt_unmatched) (use assms in \<open>simp_all add: op_stack_def unmatched_close_insert_concat\<close>)
  then show ?thesis by (simp add: infix_to_postfix_def regex_to_nfa_def)
qed

theorem unmatched_close_index_error_witness:
  "unmatched_close 0 (str ''a)'') \<and> infix_to_postfix (str ''a)'') = Inl IndexError
     \<and> regex_to_nfa (str ''a)'') = Inl IndexError \<and> kind_of IndexError = None"
  using unmatched_close_index_error [of "str ''a)''"] by (simp add: str_def)

text \<open>
  Claim C7, as stated: such an input is reported as an error of the malformed-expression
  kind. On \<open>a)\<close> it is not.
\<close>

theorem unmatched_close_not_malformed_kind:
  "\<not> (\<exists>e. regex_to_nfa (str ''a)'') = Inl e \<and> kind_of e = Some MalformedExpressionError)"
  by (simp add: regex_to_nfa_def infix_to_postfix_def str_def)

section \<open>Fragments on the evaluator's stack\<close>

lemma states_of_make:
  "states_of \<lparr>start_state = a, accept_state = b, transitions = T\<rparr> =
     insert a (insert b (table_keys T \<union> (\<lambda>(s, l, d). d) ` edges T))"
  by (simp add: states_of_def)

lemma key_in_states: "s \<in> table_keys (transitions F) \<Longrightarrow> s \<in> states_of F"
  by (simp add: states_of_def)

lemma edge_in_states:
  assumes "(s, l, d) \<in> edges (transitions F)"
  shows "s \<in> states_of F" and "d \<in> states_of F"
proof -
  from assms have "s \<in> table_keys (transitions F)" by (auto simp: edges_def)
  then show "s \<in> states_of F" by (rule key_in_states)
  from assms have "d \<in> (\<lambda>(s, l, d). d) ` edges (transitions F)" by force
  then show "d \<in> states_of F" by (simp add: states_of_def)
qed

lemma start_in_states: "start_state F \<in> states_of F"
  and accept_in_states: "accept_state F \<in> states_of F"
  by (simp_all add: states_of_def)

lemma frag_ok_mono: "frag_ok n F \<Longrightarrow> n \<le> m \<Longrightarrow> frag_ok m F"
  by (auto simp: frag_ok_def)

lemma stack_ok_mono: "stack_ok n stack \<Longrightarrow> n \<le> m \<Longrightarrow> stack_ok m stack"
  by (induction stack) (auto intro: frag_ok_mono)

lemma stack_ok_bound: "stack_ok n stack \<Longrightarrow> G \<in> set stack \<Longrightarrow> states_of G \<subseteq> {..<n}"
  by (induction stack) (auto simp: frag_ok_def)

text \<open>A fragment built from the popped fragments \<open>Fs\<close> and the fresh states \<open>n\<close>, \<open>n + 1\<close>.\<close>

lemma stack_ok_push:
  assumes ok: "stack_ok n stack" and le: "n \<le> m"
    and G: "frag_ok m G"
    and sub: "states_of G \<subseteq> {n..<m} \<union> A"
    and A: "\<forall>H \<in> set stack. A \<inter> states_of H = {}"
  shows "stack_ok m (G # stack)"
proof -
  have "states_of G \<inter> states_of H = {}" if "H \<in> set stack" for H
  proof -
    from stack_ok_bound [OF ok that] have "states_of H \<inter> {n..<m} = {}" by auto
    with sub A that show ?thesis by blast
  qed
  with G stack_ok_mono [OF ok le] show ?thesis by simp
qed

lemma frag_okI:
  assumes "wf_table T" "finite (edges T)" "a < n" "b < n" "table_keys T \<subseteq> {..<n}"
    and "\<And>s l d. (s, l, d) \<in> edges T \<Longrightarrow> d < n" and "b \<notin> table_keys T"
  shows "frag_ok n \<lparr>start_state = a, accept_state = b, transitions = T\<rparr>"
  using assms by (auto simp: frag_ok_def states_of_make)

lemma literal_ok:
  "frag_ok (n + 2) \<lparr>start_state = n, accept_state = n + 1,
      transitions = add_transition [] n c (n + 1)\<rparr>"
  by (rule frag_okI)
     (auto simp: wf_add_transition wf_Nil edges_add_transition edges_Nil keys_add_transition
        keys_Nil)

lemma literal_states:
  "states_of \<lparr>start_state = n, accept_state = n + 1,
      transitions = add_transition [] n c (n + 1)\<rparr> = {n, n + 1}"
  by (auto simp: states_of_make edges_add_transition edges_Nil keys_add_transition keys_Nil)

lemmas table_simps = keys_add_transition edges_add_transition wf_add_transition

lemma frag_ok_facts:
  assumes "frag_ok n F"
  shows "wf_table (transitions F)" "finite (edges (transitions F))"
    "start_state F < n" "accept_state F < n"
    "accept_state F \<notin> table_keys (transitions F)"
    "\<And>s. s \<in> table_keys (transitions F) \<Longrightarrow> s < n"
    "\<And>s l d. (s, l, d) \<in> edges (transitions F) \<Longrightarrow> s < n \<and> d < n"
proof -
  have b: "x < n" if "x \<in> states_of F" for x
    using assms that by (auto simp: frag_ok_def)
  show "wf_table (transitions F)" "finite (edges (transitions F))"
    "accept_state F \<notin> table_keys (transitions F)"
    using assms by (simp_all add: frag_ok_def)
  show "start_state F < n" "accept_state F < n"
    by (simp_all add: b start_in_states accept_in_states)
  show "s < n" if "s \<in> table_keys (transitions F)" for s
    using that by (simp add: b key_in_states)
  show "s < n \<and> d < n" if "(s, l, d) \<in> edges (transitions F)" for s l d
    using edge_in_states [OF that] by (simp add: b)
qed

lemma star_ok:
  assumes "stack_ok n (F # stack)"
  shows "\<exists>G. eval_token STAR (F # stack, n) = Inr (G # stack, n + 2)
     \<and> stack_ok (n + 2) (G # stack) \<and> literal_edges (G # stack) = literal_edges (F # stack)"
proof -
  let ?T = "add_transition (add_transition (add_transition (add_transition (transitions F)
      n EPS (start_state F)) (accept_state F) EPS (start_state F)) n EPS (n + 1))
      (accept_state F) EPS (n + 1)"
  let ?G = "\<lparr>start_state = n, accept_state = n + 1, transitions = ?T\<rparr>"
  from assms have F: "frag_ok n F" and st: "stack_ok n stack"
    and dj: "\<forall>H \<in> set stack. states_of F \<inter> states_of H = {}"
    by simp_all
  note f = frag_ok_facts [OF F]
  have e: "eval_token STAR (F # stack, n) = Inr (?G # stack, n + 2)"
    by (simp add: eval_token_def Let_def)
  have G: "frag_ok (n + 2) ?G"
    by (rule frag_okI) (use f in \<open>auto simp: table_simps less_Suc_eq dest: f(6,7)\<close>)
  have sub: "states_of ?G \<subseteq> {n..<n + 2} \<union> states_of F"
    using start_in_states [of F] accept_in_states [of F]
    by (auto simp: states_of_make table_simps dest: key_in_states edge_in_states)
  have "literal_edges (?G # stack) = literal_edges (F # stack)"
    by (auto simp: literal_edges_def table_simps)
  with stack_ok_push [OF st _ G sub dj] e show ?thesis by auto
qed


lemma plus_ok:
  assumes "stack_ok n (F # stack)"
  shows "\<exists>G. eval_token PLUS (F # stack, n) = Inr (G # stack, n + 2)
     \<and> stack_ok (n + 2) (G # stack) \<and> literal_edges (G # stack) = literal_edges (F # stack)"
proof -
  let ?T = "add_transition (add_transition (add_transition (transitions F)
      n EPS (start_state F)) (accept_state F) EPS (start_state F)) (accept_state F) EPS (n + 1)"
  let ?G = "\<lparr>start_state = n, accept_state = n + 1, transitions = ?T\<rparr>"
  from assms have F: "frag_ok n F" and st: "stack_ok n stack"
    and dj: "\<forall>H \<in> set stack. states_of F \<inter> states_of H = {}"
    by simp_all
  note f = frag_ok_facts [OF F]
  have e: "eval_token PLUS (F # stack, n) = Inr (?G # stack, n + 2)"
    by (simp add: eval_token_def Let_def)
  have G: "frag_ok (n + 2) ?G"
    by (rule frag_okI) (use f in \<open>auto simp: table_simps less_Suc_eq dest: f(6,7)\<close>)
  have sub: "states_of ?G \<subseteq> {n..<n + 2} \<union> states_of F"
    using start_in_states [of F] accept_in_states [of F]
    by (auto simp: states_of_make table_simps dest: key_in_states edge_in_states)
  have "literal_edges (?G # stack) = literal_edges (F # stack)"
    by (auto simp: literal_edges_def table_simps)
  with stack_ok_push [OF st _ G sub dj] e show ?thesis by auto
qed

lemma option_ok:
  assumes "stack_ok n (F # stack)"
  shows "\<exists>G. eval_token QMARK (F # stack, n) = Inr (G # stack, n + 2)
     \<and> stack_ok (n + 2) (G # stack) \<and> literal_edges (G # stack) = literal_edges (F # stack)"
proof -
  let ?T = "add_transition (add_transition (add_transition (transitions F)
      n EPS (start_state F)) (accept_state F) EPS (n + 1)) n EPS (n + 1)"
  let ?G = "\<lparr>start_state = n, accept_state = n + 1, transitions = ?T\<rparr>"
  from assms have F: "frag_ok n F" and st: "stack_ok n stack"
    and dj: "\<forall>H \<in> set stack. states_of F \<inter> states_of H = {}"
    by simp_all
  note f = frag_ok_facts [OF F]
  have e: "eval_token QMARK (F # stack, n) = Inr (?G # stack, n + 2)"
    by (simp add: eval_token_def Let_def)
  have G: "frag_ok (n + 2) ?G"
    by (rule frag_okI) (use f in \<open>auto simp: table_simps less_Suc_eq dest: f(6,7)\<close>)
  have sub: "states_of ?G \<subseteq> {n..<n + 2} \<union> states_of F"
    using start_in_states [of F] accept_in_states [of F]
    by (auto simp: states_of_make table_simps dest: key_in_states edge_in_states)
  have "literal_edges (?G # stack) = literal_edges (F # stack)"
    by (auto simp: literal_edges_def table_simps)
  with stack_ok_push [OF st _ G sub dj] e show ?thesis by auto
qed

lemma literal_rule_ok:
  assumes "stack_ok n stack" "c \<notin> set [STAR, PLUS, QMARK, DOT, BAR]"
  shows "\<exists>G. eval_token c (stack, n) = Inr (G # stack, n + 2)
     \<and> stack_ok (n + 2) (G # stack)
     \<and> literal_edges (G # stack) =
         (if c = EPS then literal_edges stack else insert (n, c, n + 1) (literal_edges stack))"
proof -
  let ?G = "\<lparr>start_state = n, accept_state = n + 1,
      transitions = add_transition [] n c (n + 1)\<rparr>"
  have e: "eval_token c (stack, n) = Inr (?G # stack, n + 2)"
    using assms(2) by (simp add: eval_token_def Let_def)
  have sub: "states_of ?G \<subseteq> {n..<n + 2} \<union> {}"
    using literal_states [of n c] by auto
  have "stack_ok (n + 2) (?G # stack)"
    by (rule stack_ok_push [OF assms(1) _ literal_ok sub]) simp_all
  moreover have "literal_edges (?G # stack) =
      (if c = EPS then literal_edges stack else insert (n, c, n + 1) (literal_edges stack))"
    by (auto simp: literal_edges_def table_simps edges_Nil)
  ultimately show ?thesis using e by auto
qed

lemma merged_keys:
  "s \<in> table_keys (merge_table T2 T1) \<Longrightarrow> s \<in> table_keys T2 \<or> s \<in> table_keys T1"
  using keys_merge_table [of T2 T1] by auto

lemma two_fragments:
  assumes "stack_ok n (F2 # F1 # stack)"
  shows "frag_ok n F1" "frag_ok n F2" "stack_ok n stack"
    "states_of F1 \<inter> states_of F2 = {}"
    "\<forall>H \<in> set stack. (states_of F1 \<union> states_of F2) \<inter> states_of H = {}"
  using assms by auto

lemma concat_ok:
  assumes "stack_ok n (F2 # F1 # stack)"
  shows "\<exists>G. eval_token DOT (F2 # F1 # stack, n) = Inr (G # stack, n)
     \<and> stack_ok n (G # stack)
     \<and> literal_edges (G # stack) = literal_edges (F2 # F1 # stack)"
proof -
  let ?T = "add_transition (merge_table (transitions F2) (transitions F1))
      (accept_state F1) EPS (start_state F2)"
  let ?G = "\<lparr>start_state = start_state F1, accept_state = accept_state F2, transitions = ?T\<rparr>"
  note t = two_fragments [OF assms]
  note f1 = frag_ok_facts [OF t(1)] and f2 = frag_ok_facts [OF t(2)]
  have e: "eval_token DOT (F2 # F1 # stack, n) = Inr (?G # stack, n)"
    by (simp add: eval_token_def Let_def)
  note em = edges_merge_table [OF f2(1), of "transitions F1"]
  have ed: "edges ?T = insert (accept_state F1, EPS, start_state F2)
      (edges (transitions F1) \<union> edges (transitions F2))"
    by (simp add: table_simps edges_merge_table f2(1))
  have a2: "accept_state F2 \<notin> table_keys (transitions F1)" "accept_state F2 \<noteq> accept_state F1"
    using t(4) accept_in_states [of F2] accept_in_states [of F1] key_in_states [of _ F1]
    by auto
  have G: "frag_ok n ?G"
  proof (rule frag_okI)
    show "wf_table ?T" by (simp add: table_simps wf_merge_table f1(1))
    show "finite (edges ?T)" by (simp add: table_simps em f1(2) f2(2))
    show "start_state F1 < n" "accept_state F2 < n" by (rule f1(3), rule f2(4))
    show "table_keys ?T \<subseteq> {..<n}"
      using f1(4,6) f2(6) by (auto simp: table_simps dest!: merged_keys)
    show "d < n" if "(s, l, d) \<in> edges ?T" for s l d
      using that f1(7) f2(3,7) by (auto simp: table_simps em)
    show "accept_state F2 \<notin> table_keys ?T"
      using a2 f2(5) by (auto simp: table_simps dest!: merged_keys)
  qed
  have sub: "states_of ?G \<subseteq> {n..<n} \<union> (states_of F1 \<union> states_of F2)"
    using start_in_states [of F1] accept_in_states [of F1]
      start_in_states [of F2] accept_in_states [of F2]
    by (auto simp: states_of_make table_simps em
        dest!: merged_keys dest: key_in_states edge_in_states)
  have "literal_edges (?G # stack) = literal_edges (F2 # F1 # stack)"
    by (auto simp: literal_edges_def table_simps em)
  with stack_ok_push [OF t(3) _ G sub t(5)] e show ?thesis by auto
qed

lemma union_ok:
  assumes "stack_ok n (F2 # F1 # stack)"
  shows "\<exists>G. eval_token BAR (F2 # F1 # stack, n) = Inr (G # stack, n + 2)
     \<and> stack_ok (n + 2) (G # stack)
     \<and> literal_edges (G # stack) = literal_edges (F2 # F1 # stack)"
proof -
  let ?T = "add_transition (add_transition (add_transition (add_transition
      (merge_table (transitions F2) (transitions F1))
      n EPS (start_state F1)) n EPS (start_state F2))
      (accept_state F1) EPS (n + 1)) (accept_state F2) EPS (n + 1)"
  let ?G = "\<lparr>start_state = n, accept_state = n + 1, transitions = ?T\<rparr>"
  note t = two_fragments [OF assms]
  note f1 = frag_ok_facts [OF t(1)] and f2 = frag_ok_facts [OF t(2)]
  have e: "eval_token BAR (F2 # F1 # stack, n) = Inr (?G # stack, n + 2)"
    by (simp add: eval_token_def Let_def)
  note em = edges_merge_table [OF f2(1), of "transitions F1"]
  have ed: "edges ?T = {(n, EPS, start_state F1), (n, EPS, start_state F2),
      (accept_state F1, EPS, n + 1), (accept_state F2, EPS, n + 1)}
      \<union> (edges (transitions F1) \<union> edges (transitions F2))"
    by (auto simp: table_simps edges_merge_table f2(1))
  have G: "frag_ok (n + 2) ?G"
  proof (rule frag_okI)
    show "wf_table ?T" by (simp add: table_simps wf_merge_table f1(1))
    show "finite (edges ?T)" by (simp add: table_simps em f1(2) f2(2))
    show "n < n + 2" "n + 1 < n + 2" by simp_all
    show "table_keys ?T \<subseteq> {..<n + 2}"
      using f1(4,6) f2(4,6) by (auto simp: table_simps less_Suc_eq dest!: merged_keys)
    show "d < n + 2" if "(s, l, d) \<in> edges ?T" for s l d
      using that f1(3,7) f2(3,7) by (auto simp: table_simps em less_Suc_eq)
    show "n + 1 \<notin> table_keys ?T"
      using f1(4) f2(4) f1(6) [of "Suc n"] f2(6) [of "Suc n"]
      by (auto simp: table_simps dest!: merged_keys)
  qed
  have sub: "states_of ?G \<subseteq> {n..<n + 2} \<union> (states_of F1 \<union> states_of F2)"
    using start_in_states [of F1] accept_in_states [of F1]
      start_in_states [of F2] accept_in_states [of F2]
    by (auto simp: states_of_make table_simps em
        dest!: merged_keys dest: key_in_states edge_in_states)
  have "literal_edges (?G # stack) = literal_edges (F2 # F1 # stack)"
    by (auto simp: literal_edges_def table_simps em)
  with stack_ok_push [OF t(3) _ G sub t(5)] e show ?thesis by auto
qed

lemma eval_token_step:
  assumes ok: "stack_ok n stack" and e: "eval_token c (stack, n) = Inr (stack', n')"
  shows "stack_ok n' stack' \<and> n \<le> n'
     \<and> literal_edges stack' =
         (if c \<notin> set [STAR, PLUS, QMARK, DOT, BAR] \<and> c \<noteq> EPS
          then insert (n, c, n + 1) (literal_edges stack) else literal_edges stack)"
proof -
  consider (lit) "c \<notin> set [STAR, PLUS, QMARK, DOT, BAR]"
    | (star) "c = STAR" | (plus) "c = PLUS" | (opt) "c = QMARK"
    | (dot) "c = DOT" | (bar) "c = BAR"
    by auto
  then show ?thesis
  proof cases
    case lit
    from literal_rule_ok [OF ok lit] e lit show ?thesis by auto
  next
    case star
    with e obtain F st where s: "stack = F # st"
      by (cases stack) (auto simp: eval_token_def)
    from star_ok [of n F st] ok e show ?thesis unfolding s star by auto
  next
    case plus
    with e obtain F st where s: "stack = F # st"
      by (cases stack) (auto simp: eval_token_def)
    from plus_ok [of n F st] ok e show ?thesis unfolding s plus by auto
  next
    case opt
    with e obtain F st where s: "stack = F # st"
      by (cases stack) (auto simp: eval_token_def)
    from option_ok [of n F st] ok e show ?thesis unfolding s opt by auto
  next
    case dot
    with e obtain F2 F1 st where s: "stack = F2 # F1 # st"
      by (cases stack; cases "tl stack") (auto simp: eval_token_def)
    from concat_ok [of n F2 F1 st] ok e show ?thesis unfolding s dot by auto
  next
    case bar
    with e obtain F2 F1 st where s: "stack = F2 # F1 # st"
      by (cases stack; cases "tl stack") (auto simp: eval_token_def)
    from union_ok [of n F2 F1 st] ok e show ?thesis unfolding s bar by auto
  qed
qed

lemma literal_edges_finite: "stack_ok n stack \<Longrightarrow> finite (literal_edges stack)"
  by (induction stack) (auto simp: literal_edges_def frag_ok_def)

lemma literal_edges_bound:
  assumes "stack_ok n stack" "(s, l, d) \<in> literal_edges stack"
  shows "s < n"
proof -
  from assms(2) obtain F where F: "F \<in> set stack" "(s, l, d) \<in> edges (transitions F)"
    by (auto simp: literal_edges_def)
  from edge_in_states(1) [OF F(2)] stack_ok_bound [OF assms(1) F(1)] show ?thesis by auto
qed

lemma eval_tokens_literal_edges:
  assumes "stack_ok n stack" "eval_tokens p (stack, n) = Inr (stack', n')"
  shows "stack_ok n' stack' \<and> card (literal_edges stack') =
     card (literal_edges stack)
       + length (filter (\<lambda>c. c \<notin> set [STAR, PLUS, QMARK, DOT, BAR] \<and> c \<noteq> EPS) p)"
  using assms
proof (induction p arbitrary: stack n)
  case Nil
  then show ?case by simp
next
  case (Cons c p)
  from Cons.prems(2) obtain st1 n1 where
    e: "eval_token c (stack, n) = Inr (st1, n1)" and r: "eval_tokens p (st1, n1) = Inr (stack', n')"
    by (auto split: sum.splits)
  note s = eval_token_step [OF Cons.prems(1) e]
  from s have ok1: "stack_ok n1 st1" by simp
  have new: "(n, c, n + 1) \<notin> literal_edges stack"
    using literal_edges_bound [OF Cons.prems(1), of n c "n + 1"] by auto
  have "card (literal_edges st1) = card (literal_edges stack)
      + (if c \<notin> set [STAR, PLUS, QMARK, DOT, BAR] \<and> c \<noteq> EPS then 1 else 0)"
    using s new literal_edges_finite [OF Cons.prems(1)] by (simp split: if_splits)
  with Cons.IH [OF ok1 r] show ?case by simp
qed

lemma postfix_to_nfa_literals:
  assumes "postfix_to_nfa p = Inr N"
  shows "non_epsilon_transitions N =
     length (filter (\<lambda>c. c \<notin> set [STAR, PLUS, QMARK, DOT, BAR] \<and> c \<noteq> EPS) p)"
proof -
  from assms obtain n where e: "eval_tokens p ([], 0) = Inr ([N], n)"
    by (auto simp: postfix_to_nfa_def split: sum.splits prod.splits if_splits list.splits
        simp: length_Suc_conv)
  have "stack_ok 0 []" by simp
  from eval_tokens_literal_edges [OF this e]
  show ?thesis by (simp add: literal_edges_def non_epsilon_transitions_def)
qed

section \<open>The postfix string holds the characters of the expression\<close>

lemma shunt_mset:
  assumes "op_stack st" "shunt cs out st = Inr (out', st')"
  shows "mset out' + mset st' + replicate_mset (count (mset cs) RPAREN) LPAREN
           + replicate_mset (count (mset cs) RPAREN) RPAREN
         = mset out + mset st + mset cs"
  using assms
proof (induction cs arbitrary: out st)
  case Nil
  then show ?case by simp
next
  case (Cons c cs)
  consider (lp) "c = LPAREN" | (rp) "c = RPAREN"
    | (op) "c \<in> set [STAR, PLUS, QMARK, DOT, BAR]"
    | (lit) "c \<noteq> LPAREN" "c \<noteq> RPAREN" "c \<notin> set [STAR, PLUS, QMARK, DOT, BAR]"
    by blast
  then show ?case
  proof cases
    case lp
    with Cons.prems have "op_stack (c # st)" "shunt cs out (c # st) = Inr (out', st')"
      by (simp_all add: op_stack_Cons)
    from Cons.IH [OF this] lp show ?thesis by simp
  next
    case rp
    with Cons.prems(2) obtain o1 s1 where
      p: "pop_until_lparen out st = Inr (o1, s1)" and r: "shunt cs o1 s1 = Inr (out', st')"
      by (auto split: sum.splits)
    from pop_until_lparen_result [OF p] Cons.prems(1)
    have m: "mset o1 + mset s1 + {#LPAREN#} = mset out + mset st" and "op_stack s1"
      by (auto intro: op_stack_subset)
    from Cons.IH [OF this(2) r] m rp show ?thesis
      by (simp add: ac_simps)
  next
    case op
    from pop_ops_result [OF Cons.prems(1) op, of out]
    obtain o1 s1 where p: "pop_ops c out st = Inr (o1, s1)"
      and m: "mset o1 + mset s1 = mset out + mset st" and sub: "set s1 \<subseteq> set st"
      by blast
    from op have ne: "c \<noteq> LPAREN" "c \<noteq> RPAREN" by auto
    have "op_stack (c # s1)"
      using op sub Cons.prems(1) by (auto simp: op_stack_Cons intro: op_stack_subset)
    moreover from Cons.prems(2) op ne p have "shunt cs o1 (c # s1) = Inr (out', st')"
      by simp
    ultimately show ?thesis
      using Cons.IH [of "c # s1" o1] m ne by (simp add: ac_simps)
  next
    case lit
    with Cons.prems(2) have "shunt cs (out @ [c]) st = Inr (out', st')" by simp
    from Cons.IH [OF Cons.prems(1) this] lit show ?thesis by simp
  qed
qed


lemma filter_insert_concat: "\<not> P DOT \<Longrightarrow> filter P (insert_concat r) = filter P r"
  by (induction r rule: insert_concat.induct) auto

lemma balanced_count:
  "balanced d r \<Longrightarrow> count (mset r) LPAREN + d = count (mset r) RPAREN"
proof (induction r arbitrary: d)
  case Nil
  then show ?case by simp
next
  case (Cons c r)
  consider "c = LPAREN" | "c = RPAREN" | "c \<noteq> LPAREN" "c \<noteq> RPAREN" by blast
  then show ?case
  proof cases
    case 1
    with Cons.prems Cons.IH [of "Suc d"] show ?thesis by simp
  next
    case 2
    with Cons.prems Cons.IH [of "d - 1"] show ?thesis by auto
  next
    case 3
    with Cons.prems Cons.IH [of d] show ?thesis by simp
  qed
qed

lemma size_filter_replicate_mset:
  "size (filter_mset P (replicate_mset k x)) = (if P x then k else 0)"
  by (induction k) auto

lemma count_as_filter: "count (mset xs) x = length (filter (\<lambda>c. c = x) xs)"
  by (induction xs) auto

lemma token_literals_split:
  "length (filter (\<lambda>c. c \<notin> set [STAR, PLUS, QMARK, DOT, BAR] \<and> c \<noteq> EPS) r) =
     length (filter literal_char r) + count (mset r) LPAREN + count (mset r) RPAREN"
  by (induction r) (auto simp: literal_char_def)

lemma infix_to_postfix_literals:
  assumes "infix_to_postfix r = Inr p"
  shows "length (filter (\<lambda>c. c \<notin> set [STAR, PLUS, QMARK, DOT, BAR] \<and> c \<noteq> EPS) p)
           + 2 * count (mset r) RPAREN =
         length (filter (\<lambda>c. c \<notin> set [STAR, PLUS, QMARK, DOT, BAR] \<and> c \<noteq> EPS) r)"
proof -
  let ?Q = "\<lambda>c. c \<notin> set [STAR, PLUS, QMARK, DOT, BAR] \<and> c \<noteq> EPS"
  let ?e = "insert_concat r"
  from assms obtain out st where s: "shunt ?e [] [] = Inr (out, st)" and p: "p = out @ st"
    by (auto simp: infix_to_postfix_def split: sum.splits)
  have k: "count (mset ?e) RPAREN = count (mset r) RPAREN"
    by (simp add: count_as_filter filter_insert_concat)
  have "op_stack []" by (simp add: op_stack_def)
  from shunt_mset [OF this s]
  have "mset p + replicate_mset (count (mset r) RPAREN) LPAREN
          + replicate_mset (count (mset r) RPAREN) RPAREN = mset ?e"
    by (simp add: p k)
  then have "size (filter_mset ?Q (mset p + replicate_mset (count (mset r) RPAREN) LPAREN
          + replicate_mset (count (mset r) RPAREN) RPAREN)) = size (filter_mset ?Q (mset ?e))"
    by simp
  then have "length (filter ?Q p) + 2 * count (mset r) RPAREN = length (filter ?Q ?e)"
    by (simp add: size_filter_replicate_mset flip: mset_filter)
  then show ?thesis by (simp add: filter_insert_concat)
qed

text \<open>
  When the grouping markers of an expression are balanced and \<open>regex_to_nfa\<close> returns an
  automaton, the transitions of the automaton that are not epsilon transitions are as many as
  the literal characters of the expression.
\<close>

lemma balanced_literal_count:
  assumes "regex_to_nfa r = Inr N" and "balanced 0 r"
  shows "non_epsilon_transitions N = length (filter literal_char r)"
proof -
  from assms(1) obtain p where p: "infix_to_postfix r = Inr p" and n: "postfix_to_nfa p = Inr N"
    by (auto simp: regex_to_nfa_def split: sum.splits)
  from balanced_count [OF assms(2)]
  have b: "count (mset r) LPAREN = count (mset r) RPAREN" by simp
  from infix_to_postfix_literals [OF p] postfix_to_nfa_literals [OF n] b
    token_literals_split [of r]
  show ?thesis by linarith
qed

lemma reachable_stack_ok:
  assumes "eval_tokens p ([], 0) = Inr (stack, n)"
  shows "stack_ok n stack"
proof -
  have "stack_ok 0 []" by simp
  from eval_tokens_literal_edges [OF this assms] show ?thesis by simp
qed

text \<open>
  Claim C6. In a state the evaluator reaches with a fragment \<open>F\<close> on top of its stack, the
  \<open>*\<close> token pops \<open>F\<close> alone and pushes a fragment whose start and accept states are the two
  next values \<open>n\<close>, \<open>n + 1\<close> of the counter, used by no fragment of the stack, and whose
  transitions are those of \<open>F\<close> and four more, all epsilon transitions: from the new start to
  the start of \<open>F\<close>, from the accept of \<open>F\<close> to the start of \<open>F\<close>, from the new start to the
  new accept, and from the accept of \<open>F\<close> to the new accept.
\<close>

theorem star_rule:
  assumes "eval_tokens p ([], 0) = Inr (F # stack, n)"
  shows "\<exists>T. eval_token STAR (F # stack, n) =
        Inr (\<lparr>start_state = n, accept_state = n + 1, transitions = T\<rparr> # stack, n + 2)
     \<and> edges T = edges (transitions F)
         \<union> {(n, EPS, start_state F), (accept_state F, EPS, start_state F),
            (n, EPS, n + 1), (accept_state F, EPS, n + 1)}
     \<and> edges (transitions F)
         \<inter> {(n, EPS, start_state F), (accept_state F, EPS, start_state F),
            (n, EPS, n + 1), (accept_state F, EPS, n + 1)} = {}
     \<and> card (edges T) = card (edges (transitions F)) + 4
     \<and> n \<notin> \<Union> (states_of ` set (F # stack)) \<and> n + 1 \<notin> \<Union> (states_of ` set (F # stack))"
proof -
  let ?X = "{(n, EPS, start_state F), (accept_state F, EPS, start_state F),
            (n, EPS, n + 1), (accept_state F, EPS, n + 1)}"
  let ?T = "add_transition (add_transition (add_transition (add_transition (transitions F)
      n EPS (start_state F)) (accept_state F) EPS (start_state F)) n EPS (n + 1))
      (accept_state F) EPS (n + 1)"
  from reachable_stack_ok [OF assms] have ok: "stack_ok n (F # stack)" .
  then have F: "frag_ok n F" by simp
  note f = frag_ok_facts [OF F]
  have e: "eval_token STAR (F # stack, n) =
      Inr (\<lparr>start_state = n, accept_state = n + 1, transitions = ?T\<rparr> # stack, n + 2)"
    by (simp add: eval_token_def Let_def)
  have ed: "edges ?T = edges (transitions F) \<union> ?X"
    by (auto simp: edges_add_transition)
  have src: "s \<noteq> n \<and> s \<noteq> accept_state F" if "(s, l, d) \<in> edges (transitions F)" for s l d
  proof -
    from that have "s \<in> table_keys (transitions F)" by (auto simp: edges_def)
    with f(5,6) show ?thesis by auto
  qed
  have dj: "edges (transitions F) \<inter> ?X = {}"
    using src by auto
  have "card ?X = 4"
    using f(3,4) by (simp add: card_insert_if)
  moreover have "card (edges (transitions F) \<union> ?X) = card (edges (transitions F)) + card ?X"
    by (rule card_Un_disjoint [OF f(2) _ dj]) simp
  ultimately have c: "card (edges ?T) = card (edges (transitions F)) + 4"
    unfolding ed by simp
  have fresh: "n \<notin> \<Union> (states_of ` set (F # stack))" "n + 1 \<notin> \<Union> (states_of ` set (F # stack))"
    using stack_ok_bound [OF ok] by fastforce+
  from e ed dj c fresh show ?thesis by blast
qed

theorem star_rule_witness:
  "eval_tokens (str ''a'') ([], 0) =
      Inr (\<lparr>start_state = 0, accept_state = 1, transitions = [(0, [(97, {1})])]\<rparr> # [], 2)
   \<and> (\<exists>T. eval_token STAR
          (\<lparr>start_state = 0, accept_state = 1, transitions = [(0, [(97, {1})])]\<rparr> # [], 2) =
        Inr (\<lparr>start_state = 2, accept_state = 3, transitions = T\<rparr> # [], 4)
     \<and> edges T = {(0, 97, 1), (2, EPS, 0), (1, EPS, 0), (2, EPS, 3), (1, EPS, 3)}
     \<and> card (edges T) = 5)"
proof -
  let ?F = "\<lparr>start_state = 0, accept_state = 1, transitions = [(0, [(97, {1 :: nat})])]\<rparr>"
  have r: "eval_tokens (str ''a'') ([], 0) = Inr (?F # [], 2)"
    by (simp add: str_def eval_token_def add_transition_def)
  have ed: "edges (transitions ?F) = {(0, 97, 1)}"
    by (simp add: edges_def table_keys_def row_of_def dests_def)
  from star_rule [OF r] ed r show ?thesis by auto
qed

section \<open>What a store operation may write\<close>

lemma within_refl: "within t h h"
  by (simp add: within_def)

lemma within_trans:
  assumes "within t h h'" "within t h' h''"
  shows "within t h h''"
proof -
  from assms have n: "next_addr h \<le> next_addr h'" "next_addr h' \<le> next_addr h''"
    by (simp_all add: within_def)
  have i: "inner_addrs h' t \<subseteq> inner_addrs h t \<union> {next_addr h..<next_addr h'}"
    and s: "set_addrs h' t \<subseteq> set_addrs h t \<union> {next_addr h..<next_addr h'}"
    using assms(1) by (simp_all add: within_def)
  have i': "inner_addrs h'' t \<subseteq> inner_addrs h' t \<union> {next_addr h'..<next_addr h''}"
    and s': "set_addrs h'' t \<subseteq> set_addrs h' t \<union> {next_addr h'..<next_addr h''}"
    using assms(2) by (simp_all add: within_def)
  have "outer_of h'' u = outer_of h u" if "u \<noteq> t" for u
    using assms that by (simp add: within_def)
  moreover have "inner_of h'' ia = inner_of h ia"
    if "ia < next_addr h" "ia \<notin> inner_addrs h t" for ia
  proof -
    from that i n have "ia < next_addr h'" "ia \<notin> inner_addrs h' t" by auto
    with assms that show ?thesis by (simp add: within_def)
  qed
  moreover have "set_of h'' sa = set_of h sa"
    if "sa < next_addr h" "sa \<notin> set_addrs h t" for sa
  proof -
    from that s n have "sa < next_addr h'" "sa \<notin> set_addrs h' t" by auto
    with assms that show ?thesis by (simp add: within_def)
  qed
  moreover have r: "{next_addr h..<next_addr h'} \<subseteq> {next_addr h..<next_addr h''}"
    "{next_addr h'..<next_addr h''} \<subseteq> {next_addr h..<next_addr h''}"
    using n by auto
  moreover have "inner_addrs h'' t \<subseteq> inner_addrs h t \<union> {next_addr h..<next_addr h''}"
    using i i' r by blast
  moreover have "set_addrs h'' t \<subseteq> set_addrs h t \<union> {next_addr h..<next_addr h''}"
    using s s' r by blast
  ultimately show ?thesis using n by (simp add: within_def)
qed

lemma allocated_within:
  assumes "allocated h t" "within t h h'"
  shows "allocated h' t"
  using assms by (fastforce simp: allocated_def within_def)

lemma store_h_within:
  assumes "allocated h t"
  shows "within t h (store_h h t s l D)"
proof (cases "map_of (outer_of h t) s")
  case None
  let ?h = "store_h h t s l D"
  have h': "?h = h\<lparr>outer_of := (outer_of h)(t := outer_of h t @ [(s, next_addr h)]),
      inner_of := (inner_of h)(next_addr h := [(l, next_addr h + 1)]),
      set_of := (set_of h)(next_addr h + 1 := D),
      next_addr := next_addr h + 2\<rparr>"
    using None by (simp add: store_h_def Let_def)
  have ia: "inner_addrs ?h t = insert (next_addr h) (inner_addrs h t)"
    by (simp add: h' inner_addrs_def)
  have old: "inner_of ?h ia = inner_of h ia" if "ia \<in> inner_addrs h t" for ia
    using assms that by (auto simp: h' allocated_def)
  have "set_addrs ?h t \<subseteq> insert (next_addr h + 1) (set_addrs h t)"
    unfolding set_addrs_def ia using old by (fastforce simp: h' split: if_splits)
  with ia show ?thesis
    by (auto simp: within_def h')
next
  case (Some ia)
  then have ia: "ia \<in> inner_addrs h t"
    by (force simp: inner_addrs_def dest: map_of_SomeD)
  show ?thesis
  proof (cases "map_of (inner_of h ia) l")
    case None
    let ?h = "store_h h t s l D"
    have h': "?h = h\<lparr>inner_of := (inner_of h)(ia := inner_of h ia @ [(l, next_addr h)]),
        set_of := (set_of h)(next_addr h := D), next_addr := next_addr h + 1\<rparr>"
      using Some None by (simp add: store_h_def Let_def)
    have i: "inner_addrs ?h t = inner_addrs h t"
      by (simp add: h' inner_addrs_def)
    have "set_addrs ?h t \<subseteq> insert (next_addr h) (set_addrs h t)"
      unfolding set_addrs_def i by (fastforce simp: h' split: if_splits)
    with i ia show ?thesis
      by (auto simp: within_def h')
  next
    case (Some sa)
    let ?h = "store_h h t s l D"
    have h': "?h = h\<lparr>set_of := (set_of h)(sa := set_of h sa \<union> D)\<rparr>"
      using \<open>map_of (outer_of h t) s = Some ia\<close> Some by (simp add: store_h_def)
    from Some ia have "sa \<in> set_addrs h t"
      by (force simp: set_addrs_def dest: map_of_SomeD)
    then show ?thesis
      by (auto simp: within_def h' inner_addrs_def set_addrs_def)
  qed
qed

lemma add_transition_h_within: "allocated h t \<Longrightarrow> within t h (add_transition_h h t s l d)"
  by (simp add: add_transition_h_def store_h_within)

lemma merge_row_h_within: "allocated h t \<Longrightarrow> within t h (merge_row_h h t s items)"
proof (induction items arbitrary: h)
  case Nil
  then show ?case by (simp add: within_refl)
next
  case (Cons e items)
  obtain l sa where e: "e = (l, sa)" by (cases e)
  let ?h = "store_h h t s l (set_of h sa)"
  have w: "within t h ?h" by (rule store_h_within [OF Cons.prems])
  from Cons.IH [OF allocated_within [OF Cons.prems w]] w show ?case
    by (auto simp: e intro: within_trans)
qed

lemma merge_states_h_within: "allocated h t \<Longrightarrow> within t h (merge_states_h h t entries)"
proof (induction entries arbitrary: h)
  case Nil
  then show ?case by (simp add: within_refl)
next
  case (Cons e entries)
  obtain s ia where e: "e = (s, ia)" by (cases e)
  let ?h = "merge_row_h h t s (inner_of h ia)"
  have w: "within t h ?h" by (rule merge_row_h_within [OF Cons.prems])
  from Cons.IH [OF allocated_within [OF Cons.prems w]] w show ?case
    by (auto simp: e intro: within_trans)
qed

lemma merge_table_h_within: "allocated h t \<Longrightarrow> within t h (merge_table_h h t t2)"
  by (simp add: merge_table_h_def merge_states_h_within)

section \<open>Dictionaries that are not written\<close>

lemma same_on_addrs:
  assumes "same_on u h h'"
  shows "inner_addrs h' u = inner_addrs h u" "set_addrs h' u = set_addrs h u"
    "table_of h' u = table_of h u"
proof -
  from assms show i: "inner_addrs h' u = inner_addrs h u"
    by (simp add: same_on_def inner_addrs_def)
  from assms show "set_addrs h' u = set_addrs h u"
    unfolding set_addrs_def i by (simp add: same_on_def)
  have "map (\<lambda>(l, sa). (l, set_of h' sa)) (inner_of h' ia)
      = map (\<lambda>(l, sa). (l, set_of h sa)) (inner_of h ia)"
    if "ia \<in> inner_addrs h u" for ia
  proof -
    from assms that have e: "inner_of h' ia = inner_of h ia" by (simp add: same_on_def)
    have "set_of h' sa = set_of h sa" if "sa \<in> snd ` set (inner_of h ia)" for sa
      using assms that \<open>ia \<in> inner_addrs h u\<close> by (auto simp: same_on_def set_addrs_def)
    then show ?thesis unfolding e by (auto simp: rev_image_eqI)
  qed
  then show "table_of h' u = table_of h u"
    using assms by (auto simp: table_of_def same_on_def inner_addrs_def rev_image_eqI)
qed

lemma same_on_refl: "same_on u h h"
  by (simp add: same_on_def)

lemma same_on_trans: "same_on u h h' \<Longrightarrow> same_on u h' h'' \<Longrightarrow> same_on u h h''"
  using same_on_addrs(1,2) [of u h h'] by (auto simp: same_on_def)

lemma within_same_on:
  assumes "within t h h'" "allocated h u" "u \<noteq> t"
    and "inner_addrs h u \<inter> inner_addrs h t = {}" "set_addrs h u \<inter> set_addrs h t = {}"
  shows "same_on u h h'"
  using assms by (auto simp: same_on_def within_def allocated_def)

lemma same_on_allocated:
  "same_on u h h' \<Longrightarrow> allocated h u \<Longrightarrow> next_addr h \<le> next_addr h' \<Longrightarrow> allocated h' u"
  using same_on_addrs(1,2) [of u h h'] by (auto simp: allocated_def)

lemma same_on_separate:
  "same_on (frag_table F) h h' \<Longrightarrow> same_on (frag_table G) h h' \<Longrightarrow>
     separate h' F G = separate h F G"
  using same_on_addrs(1,2) [of "frag_table F" h h'] same_on_addrs(1,2) [of "frag_table G" h h']
  by (simp add: separate_def)

lemma same_on_all_separate:
  "\<forall>G \<in> set stack. same_on (frag_table G) h h' \<Longrightarrow>
     all_separate h' stack = all_separate h stack"
  by (induction stack) (auto simp: same_on_separate)

lemma nfa_of_same_on: "same_on (frag_table G) h h' \<Longrightarrow> nfa_of h' G = nfa_of h G"
  by (simp add: nfa_of_def same_on_addrs(3))

section \<open>Pushing a fragment built in a fresh outer dictionary\<close>

lemma add_transition_h_grow:
  assumes "allocated h1 t" "within t h1 h"
  shows "within t h1 (add_transition_h h t s l d)"
  by (rule within_trans [OF assms(2)])
     (rule add_transition_h_within [OF allocated_within [OF assms]])

lemma merge_table_h_grow:
  assumes "allocated h1 t" "within t h1 h"
  shows "within t h1 (merge_table_h h t t2)"
  by (rule within_trans [OF assms(2)])
     (rule merge_table_h_within [OF allocated_within [OF assms]])

lemma push_fragment:
  assumes ok: "heap_ok h rest"
    and nx: "next_addr h < next_addr h1"
    and same1: "\<forall>G \<in> set rest. same_on (frag_table G) h h1"
    and al: "allocated h1 (next_addr h)"
    and dj: "\<forall>G \<in> set rest.
        inner_addrs h1 (next_addr h) \<inter> inner_addrs h (frag_table G) = {}
        \<and> set_addrs h1 (next_addr h) \<inter> set_addrs h (frag_table G) = {}"
    and w: "within (next_addr h) h1 h2"
  shows "heap_ok h2 (\<lparr>frag_start = a, frag_accept = b, frag_table = next_addr h\<rparr> # rest)"
    and "\<forall>G \<in> set rest. same_on (frag_table G) h h2"
proof -
  let ?t = "next_addr h"
  from w have n12: "next_addr h1 \<le> next_addr h2" by (simp add: within_def)
  have same2: "same_on (frag_table G) h h2" if G: "G \<in> set rest" for G
  proof -
    from ok G have a: "allocated h (frag_table G)" by (simp add: heap_ok_def)
    from same1 G have s1: "same_on (frag_table G) h h1" by simp
    note e = same_on_addrs(1,2) [OF s1]
    have "same_on (frag_table G) h1 h2"
    proof (rule within_same_on [OF w])
      show "allocated h1 (frag_table G)"
        using same_on_allocated [OF s1 a] nx by simp
      show "frag_table G \<noteq> ?t" using a by (auto simp: allocated_def)
      show "inner_addrs h1 (frag_table G) \<inter> inner_addrs h1 ?t = {}"
        "set_addrs h1 (frag_table G) \<inter> set_addrs h1 ?t = {}"
        using dj G unfolding e by auto
    qed
    with s1 show ?thesis by (rule same_on_trans)
  qed
  then show "\<forall>G \<in> set rest. same_on (frag_table G) h h2" by simp
  have "allocated h2 ?t" by (rule allocated_within [OF al w])
  moreover have "allocated h2 (frag_table G)" if G: "G \<in> set rest" for G
    using same_on_allocated [OF same2 [OF G]] ok G nx n12 by (simp add: heap_ok_def)
  moreover have "separate h2 \<lparr>frag_start = a, frag_accept = b, frag_table = ?t\<rparr> G"
    if G: "G \<in> set rest" for G
  proof -
    from ok G have a: "allocated h (frag_table G)" by (simp add: heap_ok_def)
    note e = same_on_addrs(1,2) [OF same2 [OF G]]
    from w have i: "inner_addrs h2 ?t \<subseteq> inner_addrs h1 ?t \<union> {next_addr h1..<next_addr h2}"
      and s: "set_addrs h2 ?t \<subseteq> set_addrs h1 ?t \<union> {next_addr h1..<next_addr h2}"
      by (simp_all add: within_def)
    from a nx have lo: "inner_addrs h (frag_table G) \<inter> {next_addr h1..<next_addr h2} = {}"
      "set_addrs h (frag_table G) \<inter> {next_addr h1..<next_addr h2} = {}"
      "frag_table G \<noteq> ?t"
      by (auto simp: allocated_def)
    from dj G have d: "inner_addrs h1 ?t \<inter> inner_addrs h (frag_table G) = {}"
      "set_addrs h1 ?t \<inter> set_addrs h (frag_table G) = {}" by simp_all
    show ?thesis
      unfolding separate_def e using i s lo d by (simp add: eq_commute) blast
  qed
  moreover have "all_separate h2 rest"
    using same_on_all_separate [of rest h h2] same2 ok by (simp add: heap_ok_def)
  ultimately show "heap_ok h2 (\<lparr>frag_start = a, frag_accept = b, frag_table = ?t\<rparr> # rest)"
    by (simp add: heap_ok_def)
qed

lemma copy_push:
  assumes ok: "heap_ok h (F1 # rest)"
    and w: "within (next_addr h) (fst (copy_dict h (frag_table F1))) h2"
  shows "heap_ok h2 (\<lparr>frag_start = a, frag_accept = b, frag_table = next_addr h\<rparr> # rest)"
    and "\<forall>G \<in> set rest. same_on (frag_table G) h h2"
proof -
  let ?h1 = "fst (copy_dict h (frag_table F1))"
  from ok have rest: "heap_ok h rest" and a1: "allocated h (frag_table F1)"
    and sep: "\<forall>G \<in> set rest. separate h F1 G"
    by (simp_all add: heap_ok_def)
  have i: "inner_addrs ?h1 (next_addr h) = inner_addrs h (frag_table F1)"
    by (simp add: copy_dict_def inner_addrs_def)
  have s: "set_addrs ?h1 (next_addr h) = set_addrs h (frag_table F1)"
    unfolding set_addrs_def i by (simp add: copy_dict_def)
  have nx: "next_addr h < next_addr ?h1" by (simp add: copy_dict_def)
  have same1: "\<forall>G \<in> set rest. same_on (frag_table G) h ?h1"
    using rest by (auto simp: same_on_def copy_dict_def heap_ok_def allocated_def)
  have al: "allocated ?h1 (next_addr h)"
    using a1 nx unfolding allocated_def i s by (auto simp: copy_dict_def)
  have dj: "\<forall>G \<in> set rest.
        inner_addrs ?h1 (next_addr h) \<inter> inner_addrs h (frag_table G) = {}
        \<and> set_addrs ?h1 (next_addr h) \<inter> set_addrs h (frag_table G) = {}"
    unfolding i s using sep by (simp add: separate_def)
  show "heap_ok h2 (\<lparr>frag_start = a, frag_accept = b, frag_table = next_addr h\<rparr> # rest)"
    and "\<forall>G \<in> set rest. same_on (frag_table G) h h2"
    by (rule push_fragment [OF rest nx same1 al dj w])+
qed

lemma new_push:
  assumes ok: "heap_ok h rest"
    and w: "within (next_addr h) (fst (new_dict h)) h2"
  shows "heap_ok h2 (\<lparr>frag_start = a, frag_accept = b, frag_table = next_addr h\<rparr> # rest)"
    and "\<forall>G \<in> set rest. same_on (frag_table G) h h2"
proof -
  let ?h1 = "fst (new_dict h)"
  have i: "inner_addrs ?h1 (next_addr h) = {}"
    by (simp add: new_dict_def inner_addrs_def)
  have s: "set_addrs ?h1 (next_addr h) = {}"
    unfolding set_addrs_def i by simp
  have nx: "next_addr h < next_addr ?h1" by (simp add: new_dict_def)
  have same1: "\<forall>G \<in> set rest. same_on (frag_table G) h ?h1"
    using ok by (auto simp: same_on_def new_dict_def heap_ok_def allocated_def)
  have al: "allocated ?h1 (next_addr h)"
    using nx unfolding allocated_def i s by simp
  have dj: "\<forall>G \<in> set rest.
        inner_addrs ?h1 (next_addr h) \<inter> inner_addrs h (frag_table G) = {}
        \<and> set_addrs ?h1 (next_addr h) \<inter> set_addrs h (frag_table G) = {}"
    unfolding i s by simp
  show "heap_ok h2 (\<lparr>frag_start = a, frag_accept = b, frag_table = next_addr h\<rparr> # rest)"
    and "\<forall>G \<in> set rest. same_on (frag_table G) h h2"
    by (rule push_fragment [OF ok nx same1 al dj w])+
qed

lemma copy_allocated:
  "allocated h t1 \<Longrightarrow> allocated (fst (copy_dict h t1)) (next_addr h)"
proof -
  assume a: "allocated h t1"
  let ?h1 = "fst (copy_dict h t1)"
  have i: "inner_addrs ?h1 (next_addr h) = inner_addrs h t1"
    by (simp add: copy_dict_def inner_addrs_def)
  have s: "set_addrs ?h1 (next_addr h) = set_addrs h t1"
    unfolding set_addrs_def i by (simp add: copy_dict_def)
  show ?thesis using a unfolding allocated_def i s by (auto simp: copy_dict_def)
qed

lemma new_allocated: "allocated (fst (new_dict h)) (next_addr h)"
  by (simp add: allocated_def new_dict_def inner_addrs_def set_addrs_def)

lemma heap_ok_tl: "heap_ok h (F # stack) \<Longrightarrow> heap_ok h stack"
  by (simp add: heap_ok_def)

lemma heap_ok_drop_top: "heap_ok h (F2 # F1 # stack) \<Longrightarrow> heap_ok h (F1 # stack)"
  by (simp add: heap_ok_def)

lemma snd_copy_dict: "snd (copy_dict h t) = next_addr h"
  and snd_new_dict: "snd (new_dict h) = next_addr h"
  by (simp_all add: copy_dict_def new_dict_def)

lemma eval_literal_h:
  "c \<notin> set [STAR, PLUS, QMARK, DOT, BAR] \<Longrightarrow>
   eval_token_h c (h, stack, n) =
     Inr (add_transition_h (fst (new_dict h)) (next_addr h) n c (n + 1),
          \<lparr>frag_start = n, frag_accept = n + 1, frag_table = next_addr h\<rparr> # stack, n + 2)"
  by (simp add: eval_token_h_def Let_def split_def snd_new_dict)

lemma eval_star_h:
  "eval_token_h STAR (h, F # rest, n) =
     Inr (add_transition_h (add_transition_h (add_transition_h
          (add_transition_h (fst (copy_dict h (frag_table F))) (next_addr h) n EPS (frag_start F))
          (next_addr h) (frag_accept F) EPS (frag_start F)) (next_addr h) n EPS (n + 1))
          (next_addr h) (frag_accept F) EPS (n + 1),
          \<lparr>frag_start = n, frag_accept = n + 1, frag_table = next_addr h\<rparr> # rest, n + 2)"
  by (simp add: eval_token_h_def Let_def split_def snd_copy_dict)


lemma eval_plus_h:
  "eval_token_h PLUS (h, F # rest, n) =
     Inr (add_transition_h (add_transition_h
          (add_transition_h (fst (copy_dict h (frag_table F))) (next_addr h) n EPS (frag_start F))
          (next_addr h) (frag_accept F) EPS (frag_start F))
          (next_addr h) (frag_accept F) EPS (n + 1),
          \<lparr>frag_start = n, frag_accept = n + 1, frag_table = next_addr h\<rparr> # rest, n + 2)"
  by (simp add: eval_token_h_def Let_def split_def snd_copy_dict)

lemma eval_option_h:
  "eval_token_h QMARK (h, F # rest, n) =
     Inr (add_transition_h (add_transition_h
          (add_transition_h (fst (copy_dict h (frag_table F))) (next_addr h) n EPS (frag_start F))
          (next_addr h) (frag_accept F) EPS (n + 1)) (next_addr h) n EPS (n + 1),
          \<lparr>frag_start = n, frag_accept = n + 1, frag_table = next_addr h\<rparr> # rest, n + 2)"
  by (simp add: eval_token_h_def Let_def split_def snd_copy_dict)

lemma eval_concat_h:
  "eval_token_h DOT (h, F2 # F1 # rest, n) =
     Inr (add_transition_h
          (merge_table_h (fst (copy_dict h (frag_table F1))) (next_addr h) (frag_table F2))
          (next_addr h) (frag_accept F1) EPS (frag_start F2),
          \<lparr>frag_start = frag_start F1, frag_accept = frag_accept F2,
             frag_table = next_addr h\<rparr> # rest, n)"
  by (simp add: eval_token_h_def Let_def split_def snd_copy_dict)

lemma eval_union_h:
  "eval_token_h BAR (h, F2 # F1 # rest, n) =
     Inr (add_transition_h (add_transition_h (add_transition_h
          (add_transition_h
            (merge_table_h (fst (copy_dict h (frag_table F1))) (next_addr h) (frag_table F2))
          (next_addr h) n EPS (frag_start F1)) (next_addr h) n EPS (frag_start F2))
          (next_addr h) (frag_accept F1) EPS (n + 1))
          (next_addr h) (frag_accept F2) EPS (n + 1),
          \<lparr>frag_start = n, frag_accept = n + 1, frag_table = next_addr h\<rparr> # rest, n + 2)"
  by (simp add: eval_token_h_def Let_def split_def snd_copy_dict)

lemma eval_unary_h_empty:
  "c = STAR \<or> c = PLUS \<or> c = QMARK \<Longrightarrow> eval_token_h c (h, [], n) = Inl IndexError"
  by (auto simp: eval_token_h_def)

lemma eval_binary_h_short:
  "c = DOT \<or> c = BAR \<Longrightarrow> length stack < 2 \<Longrightarrow>
     eval_token_h c (h, stack, n) = Inl IndexError"
  by (cases stack; cases "tl stack") (auto simp: eval_token_h_def)

lemmas grow = add_transition_h_grow merge_table_h_grow

lemma eval_token_h_step:
  assumes ok: "heap_ok h stack" and e: "eval_token_h c (h, stack, n) = Inr (h', stack', n')"
  shows "heap_ok h' stack'
     \<and> (\<exists>G front rest. stack' = G # rest \<and> stack = front @ rest
          \<and> (\<forall>F \<in> set rest. same_on (frag_table F) h h'))"
proof -
  consider (lit) "c \<notin> set [STAR, PLUS, QMARK, DOT, BAR]"
    | (unary) "c = STAR \<or> c = PLUS \<or> c = QMARK"
    | (binary) "c = DOT \<or> c = BAR"
    by auto
  then show ?thesis
  proof cases
    case lit
    let ?h1 = "fst (new_dict h)"
    from e have h': "h' = add_transition_h ?h1 (next_addr h) n c (n + 1)"
      and s': "stack' = \<lparr>frag_start = n, frag_accept = n + 1, frag_table = next_addr h\<rparr> # stack"
      unfolding eval_literal_h [OF lit] by simp_all
    have "within (next_addr h) ?h1 h'"
      unfolding h' by (intro grow new_allocated within_refl)
    moreover have "stack = [] @ stack" by simp
    ultimately show ?thesis using new_push [OF ok, of h'] unfolding s' by blast
  next
    case unary
    with e obtain F rest where st: "stack = F # rest"
      by (cases stack) (auto simp: eval_unary_h_empty)
    let ?h1 = "fst (copy_dict h (frag_table F))"
    from ok st have a: "allocated ?h1 (next_addr h)"
      by (simp add: copy_allocated heap_ok_def)
    have "within (next_addr h) ?h1 h' \<and> (\<exists>a' b'. stack' =
        \<lparr>frag_start = a', frag_accept = b', frag_table = next_addr h\<rparr> # rest)"
      using unary
    proof (elim disjE)
      assume "c = STAR"
      with e st show ?thesis
        unfolding \<open>c = STAR\<close> st eval_star_h
        by (auto intro!: grow a within_refl)
    next
      assume "c = PLUS"
      with e st show ?thesis
        unfolding \<open>c = PLUS\<close> st eval_plus_h
        by (auto intro!: grow a within_refl)
    next
      assume "c = QMARK"
      with e st show ?thesis
        unfolding \<open>c = QMARK\<close> st eval_option_h
        by (auto intro!: grow a within_refl)
    qed
    then obtain a' b' where w: "within (next_addr h) ?h1 h'" and
      s': "stack' = \<lparr>frag_start = a', frag_accept = b', frag_table = next_addr h\<rparr> # rest"
      by blast
    have "stack = [F] @ rest" by (simp add: st)
    with copy_push [OF ok [unfolded st] w] show ?thesis unfolding s' by blast
  next
    case binary
    with e obtain F2 F1 rest where st: "stack = F2 # F1 # rest"
      using eval_binary_h_short [OF binary, of stack h n]
      by (cases stack; cases "tl stack") auto
    let ?h1 = "fst (copy_dict h (frag_table F1))"
    from ok st have ok1: "heap_ok h (F1 # rest)" by (simp add: heap_ok_drop_top)
    then have a: "allocated ?h1 (next_addr h)"
      by (simp add: copy_allocated heap_ok_def)
    have "within (next_addr h) ?h1 h' \<and> (\<exists>a' b'. stack' =
        \<lparr>frag_start = a', frag_accept = b', frag_table = next_addr h\<rparr> # rest)"
      using binary
    proof (elim disjE)
      assume "c = DOT"
      with e st show ?thesis
        unfolding \<open>c = DOT\<close> st eval_concat_h
        by (auto intro!: grow a within_refl)
    next
      assume "c = BAR"
      with e st show ?thesis
        unfolding \<open>c = BAR\<close> st eval_union_h
        by (auto intro!: grow a within_refl)
    qed
    then obtain a' b' where w: "within (next_addr h) ?h1 h'" and
      s': "stack' = \<lparr>frag_start = a', frag_accept = b', frag_table = next_addr h\<rparr> # rest"
      by blast
    have "stack = [F2, F1] @ rest" by (simp add: st)
    with copy_push [OF ok1 w] show ?thesis unfolding s' by blast
  qed
qed


lemma eval_tokens_h_ok:
  "heap_ok h stack \<Longrightarrow> eval_tokens_h p (h, stack, n) = Inr (h', stack', n') \<Longrightarrow>
     heap_ok h' stack'"
proof (induction p arbitrary: h stack n)
  case Nil
  then show ?case by simp
next
  case (Cons c p)
  from Cons.prems(2) obtain h1 st1 n1 where
    e: "eval_token_h c (h, stack, n) = Inr (h1, st1, n1)"
    and r: "eval_tokens_h p (h1, st1, n1) = Inr (h', stack', n')"
    by (auto split: sum.splits)
  from eval_token_h_step [OF Cons.prems(1) e] have "heap_ok h1 st1" by simp
  from Cons.IH [OF this r] show ?case .
qed

lemma separate_sym: "separate h F G \<Longrightarrow> separate h G F"
  by (auto simp: separate_def)

lemma all_separate_nth_less:
  "all_separate h stack \<Longrightarrow> i < j \<Longrightarrow> j < length stack \<Longrightarrow>
     separate h (stack ! i) (stack ! j)"
proof (induction stack arbitrary: i j)
  case Nil
  then show ?case by simp
next
  case (Cons F stack)
  from Cons.prems obtain j' where j: "j = Suc j'" by (cases j) auto
  show ?case
  proof (cases i)
    case 0
    with Cons.prems j show ?thesis by auto
  next
    case (Suc i')
    with Cons.prems j Cons.IH [of i' j'] show ?thesis by simp
  qed
qed

lemma all_separate_nth:
  assumes "all_separate h stack" "i < length stack" "j < length stack" "i \<noteq> j"
  shows "separate h (stack ! i) (stack ! j)"
proof (cases "i < j")
  case True
  with assms show ?thesis by (simp add: all_separate_nth_less)
next
  case False
  with assms have "j < i" by simp
  with assms show ?thesis by (simp add: all_separate_nth_less separate_sym)
qed

lemma heap_ok_empty: "heap_ok empty_heap []"
  by (simp add: heap_ok_def)

lemma separate_frame:
  assumes "allocated h (frag_table F)" "allocated h (frag_table G)" "separate h F G"
  shows "nfa_of (add_transition_h h (frag_table F) s l d) G = nfa_of h G"
proof (rule nfa_of_same_on)
  show "same_on (frag_table G) h (add_transition_h h (frag_table F) s l d)"
    by (rule within_same_on [OF add_transition_h_within [OF assms(1)] assms(2)])
       (use assms(3) in \<open>auto simp: separate_def\<close>)
qed

section \<open>The store and the tables\<close>

lemma alist_eqI:
  assumes "distinct (map fst xs)" "map fst xs = map fst ys"
    and "\<And>k. k \<in> set (map fst xs) \<Longrightarrow> map_of xs k = map_of ys k"
  shows "xs = ys"
  using assms
proof (induction xs arbitrary: ys)
  case Nil
  then show ?case by simp
next
  case (Cons x xs)
  from Cons.prems(2) obtain y ys' where ys: "ys = y # ys'" by (cases ys) auto
  with Cons.prems(2) have k: "fst x = fst y" and ks: "map fst xs = map fst ys'" by simp_all
  from Cons.prems(3) [of "fst x"] ys k have "snd x = snd y" by simp
  with k have xy: "x = y" by (simp add: prod_eq_iff)
  have "map_of xs k' = map_of ys' k'" if "k' \<in> set (map fst xs)" for k'
  proof -
    from Cons.prems(1) have "fst x \<notin> set (map fst xs)" by simp
    with that have "k' \<noteq> fst x" by blast
    with Cons.prems(3) [of k'] that ys xy show ?thesis by simp
  qed
  with Cons.IH [of ys'] Cons.prems(1) ks have "xs = ys'" by simp
  with xy ys show ?case by simp
qed

lemma update_absent: "map_of al k = None \<Longrightarrow> AList.update k v al = al @ [(k, v)]"
  by (induction al) (auto split: if_splits)

lemma keys_update:
  "map fst (AList.update k v al) = (if k \<in> set (map fst al) then map fst al else map fst al @ [k])"
  by (simp add: update_keys)

lemma table_of_rows: "table_of h t = map (\<lambda>(s, ia). (s, row_at h ia)) (outer_of h t)"
  by (simp add: table_of_def row_at_def)

lemma keys_table_of: "map fst (table_of h t) = map fst (outer_of h t)"
  by (simp add: table_of_rows split_def)

lemma map_of_table_of:
  "map_of (table_of h t) s = map_option (row_at h) (map_of (outer_of h t) s)"
  by (simp add: table_of_rows map_of_map)

lemma keys_row_at: "map fst (row_at h ia) = map fst (inner_of h ia)"
  by (simp add: row_at_def split_def)

lemma map_of_row_at:
  "map_of (row_at h ia) l = map_option (set_of h) (map_of (inner_of h ia) l)"
  by (simp add: row_at_def map_of_map)

lemma keys_table_store:
  "map fst (table_store T s l D) =
     (if s \<in> set (map fst T) then map fst T else map fst T @ [s])"
  by (simp add: table_store_def keys_update)

lemma map_of_table_store:
  "map_of (table_store T s l D) s' =
     (if s' = s then Some (AList.update l (dests T s l \<union> D) (row_of T s)) else map_of T s')"
  by (simp add: table_store_def update_conv')

lemma add_transition_store: "add_transition T s l d = table_store T s l {d}"
  by (simp add: add_transition_alt table_store_def)

lemma merge_row_store:
  "merge_row s ((l, D) # rest) T = merge_row s rest (table_store T s l D)"
  by (simp only: merge_row_Cons table_store_def)

lemma row_at_cong:
  assumes "inner_of h' ia = inner_of h ia"
    and "\<And>sa. sa \<in> snd ` set (inner_of h ia) \<Longrightarrow> set_of h' sa = set_of h sa"
  shows "row_at h' ia = row_at h ia"
  unfolding row_at_def assms(1) using assms(2) by (auto simp: rev_image_eqI)

lemma outer_entry:
  "map_of (outer_of h t) s = Some ia \<Longrightarrow> (s, ia) \<in> set (outer_of h t) \<and> ia \<in> inner_addrs h t"
  by (force simp: inner_addrs_def dest: map_of_SomeD)

lemma inner_entry:
  "ia \<in> inner_addrs h t \<Longrightarrow> map_of (inner_of h ia) l = Some sa \<Longrightarrow>
     (l, sa) \<in> set (inner_of h ia) \<and> sa \<in> set_addrs h t"
  by (force simp: set_addrs_def dest: map_of_SomeD)

lemma allocated_inner: "allocated h t \<Longrightarrow> ia \<in> inner_addrs h t \<Longrightarrow> ia < next_addr h"
  by (auto simp: allocated_def)

lemma allocated_set:
  "allocated h t \<Longrightarrow> ia \<in> inner_addrs h t \<Longrightarrow> sa \<in> snd ` set (inner_of h ia) \<Longrightarrow>
     sa < next_addr h"
  by (auto simp: allocated_def set_addrs_def)

lemma row_of_table_of:
  "row_of (table_of h t) s = (case map_of (outer_of h t) s of None \<Rightarrow> [] | Some ia \<Rightarrow> row_at h ia)"
  by (simp add: row_of_def map_of_table_of split: option.splits)

lemma dests_table_of:
  "dests (table_of h t) s l =
     (case map_of (outer_of h t) s of
        None \<Rightarrow> {}
      | Some ia \<Rightarrow> (case map_of (inner_of h ia) l of None \<Rightarrow> {} | Some sa \<Rightarrow> set_of h sa))"
  by (simp add: dests_def row_of_table_of map_of_row_at split: option.splits)

text \<open>The three cases of \<open>store_h\<close>.\<close>

lemma store_h_new_row:
  assumes al: "allocated h t" and inj: "table_inj h t"
    and no: "map_of (outer_of h t) s = None"
  shows "table_of (store_h h t s l D) t = table_store (table_of h t) s l D"
    and "table_inj (store_h h t s l D) t"
proof -
  let ?n = "next_addr h"
  let ?h = "store_h h t s l D"
  have h': "?h = h\<lparr>outer_of := (outer_of h)(t := outer_of h t @ [(s, ?n)]),
      inner_of := (inner_of h)(?n := [(l, ?n + 1)]),
      set_of := (set_of h)(?n + 1 := D),
      next_addr := ?n + 2\<rparr>"
    using no by (simp add: store_h_def Let_def)
  have o: "outer_of ?h t = outer_of h t @ [(s, ?n)]" by (simp add: h')
  have sk: "s \<notin> set (map fst (outer_of h t))"
    using no by (simp add: map_of_eq_None_iff)
  have old_in: "inner_of ?h ia = inner_of h ia" if "ia \<in> inner_addrs h t" for ia
    using allocated_inner [OF al that] by (simp add: h')
  have old_row: "row_at ?h ia = row_at h ia" if "ia \<in> inner_addrs h t" for ia
  proof (rule row_at_cong [OF old_in [OF that]])
    fix sa assume "sa \<in> snd ` set (inner_of h ia)"
    from allocated_set [OF al that this] show "set_of ?h sa = set_of h sa" by (simp add: h')
  qed
  have new_row: "row_at ?h ?n = [(l, D)]" by (simp add: h' row_at_def)
  have ia: "inner_addrs ?h t = insert ?n (inner_addrs h t)"
    by (simp add: o inner_addrs_def)
  have nn: "?n \<notin> inner_addrs h t" using allocated_inner [OF al] by auto
  show inj': "table_inj ?h t"
    unfolding table_inj_def ia
  proof (intro conjI ballI impI)
    show "distinct (map fst (outer_of ?h t))" using inj sk by (simp add: o table_inj_def)
    show "distinct (map snd (outer_of ?h t))"
      using inj nn by (simp add: o table_inj_def inner_addrs_def)
    show "distinct (map fst (inner_of ?h ia))" if "ia \<in> insert ?n (inner_addrs h t)" for ia
      using that inj old_in by (auto simp: table_inj_def) (simp add: h')
    show "distinct (map snd (inner_of ?h ia))" if "ia \<in> insert ?n (inner_addrs h t)" for ia
      using that inj old_in by (auto simp: table_inj_def) (simp add: h')
    show "snd ` set (inner_of ?h ia) \<inter> snd ` set (inner_of ?h ib) = {}"
      if m: "ia \<in> insert ?n (inner_addrs h t)" "ib \<in> insert ?n (inner_addrs h t)" "ia \<noteq> ib"
      for ia ib
    proof -
      have fresh: "snd ` set (inner_of ?h ?n) = {?n + 1}" by (simp add: h')
      have old: "?n + 1 \<notin> snd ` set (inner_of h ic)" if "ic \<in> inner_addrs h t" for ic
        using allocated_set [OF al that, of "?n + 1"] by auto
      consider "ia = ?n" "ib \<in> inner_addrs h t" | "ib = ?n" "ia \<in> inner_addrs h t"
        | "ia \<in> inner_addrs h t" "ib \<in> inner_addrs h t"
        using m by auto
      then show ?thesis
      proof cases
        case 1
        then show ?thesis using old [of ib] unfolding old_in [OF 1(2)] 1(1) fresh by simp
      next
        case 2
        then show ?thesis using old [of ia] unfolding old_in [OF 2(2)] 2(1) fresh by simp
      next
        case 3
        then show ?thesis
          using inj m(3) unfolding old_in [OF 3(1)] old_in [OF 3(2)]
          by (simp add: table_inj_def)
      qed
    qed
  qed
  show "table_of ?h t = table_store (table_of h t) s l D"
  proof (rule alist_eqI)
    show "distinct (map fst (table_of ?h t))"
      using inj' by (simp add: keys_table_of table_inj_def)
    show "map fst (table_of ?h t) = map fst (table_store (table_of h t) s l D)"
      using sk by (simp add: keys_table_of keys_table_store o)
    fix k assume "k \<in> set (map fst (table_of ?h t))"
    show "map_of (table_of ?h t) k = map_of (table_store (table_of h t) s l D) k"
    proof (cases "k = s")
      case True
      have "map_of (outer_of ?h t) s = Some ?n"
        using no by (simp add: o map_add_def)
      then show ?thesis
        using no True
        by (simp add: map_of_table_of map_of_table_store new_row row_of_table_of
            dests_table_of)
    next
      case False
      have m: "map_of (outer_of ?h t) k = map_of (outer_of h t) k"
        using False by (simp add: o map_add_def split: option.splits)
      show ?thesis
      proof (cases "map_of (outer_of h t) k")
        case None
        with m False show ?thesis by (simp add: map_of_table_of map_of_table_store)
      next
        case (Some ic)
        with outer_entry [OF Some] old_row [of ic] m False show ?thesis
          by (simp add: map_of_table_of map_of_table_store)
      qed
    qed
  qed
qed

lemma inj_outer_key:
  assumes "table_inj h t" "(s, ia) \<in> set (outer_of h t)" "(k, ia) \<in> set (outer_of h t)"
  shows "k = s"
proof -
  from assms(1) have "distinct (map snd (outer_of h t))" by (simp add: table_inj_def)
  then have "inj_on snd (set (outer_of h t))" by (simp add: distinct_map)
  from inj_onD [OF this, of "(s, ia)" "(k, ia)"] assms(2,3) show ?thesis by simp
qed

lemma inj_inner_key:
  assumes "table_inj h t" "ia \<in> inner_addrs h t"
    "(l, sa) \<in> set (inner_of h ia)" "(k, sa) \<in> set (inner_of h ia)"
  shows "k = l"
proof -
  from assms(1,2) have "distinct (map snd (inner_of h ia))" by (simp add: table_inj_def)
  then have "inj_on snd (set (inner_of h ia))" by (simp add: distinct_map)
  from inj_onD [OF this, of "(l, sa)" "(k, sa)"] assms(3,4) show ?thesis by simp
qed

lemma store_h_new_set:
  assumes al: "allocated h t" and inj: "table_inj h t"
    and so: "map_of (outer_of h t) s = Some ia"
    and no: "map_of (inner_of h ia) l = None"
  shows "table_of (store_h h t s l D) t = table_store (table_of h t) s l D"
    and "table_inj (store_h h t s l D) t"
proof -
  let ?n = "next_addr h"
  let ?h = "store_h h t s l D"
  have h': "?h = h\<lparr>inner_of := (inner_of h)(ia := inner_of h ia @ [(l, ?n)]),
      set_of := (set_of h)(?n := D), next_addr := ?n + 1\<rparr>"
    using so no by (simp add: store_h_def Let_def)
  note e = outer_entry [OF so]
  have o: "outer_of ?h t = outer_of h t" by (simp add: h')
  have i: "inner_addrs ?h t = inner_addrs h t" by (simp add: o inner_addrs_def)
  have lk: "l \<notin> set (map fst (inner_of h ia))"
    using no by (simp add: map_of_eq_None_iff)
  have old_set: "set_of ?h sa = set_of h sa"
    if "ic \<in> inner_addrs h t" "sa \<in> snd ` set (inner_of h ic)" for ic sa
    using allocated_set [OF al that] by (simp add: h')
  have other: "inner_of ?h ic = inner_of h ic" if "ic \<noteq> ia" for ic
    using that by (simp add: h')
  have other_row: "row_at ?h ic = row_at h ic" if "ic \<in> inner_addrs h t" "ic \<noteq> ia" for ic
    by (rule row_at_cong [OF other [OF that(2)]]) (rule old_set [OF that(1)])
  have this_in: "inner_of ?h ia = inner_of h ia @ [(l, ?n)]" by (simp add: h')
  have this_row: "row_at ?h ia = row_at h ia @ [(l, D)]"
  proof -
    have "map (\<lambda>(l, sa). (l, set_of ?h sa)) (inner_of h ia)
        = map (\<lambda>(l, sa). (l, set_of h sa)) (inner_of h ia)"
      using old_set [OF e [THEN conjunct2]] by (auto simp: rev_image_eqI)
    then show ?thesis unfolding row_at_def this_in by (simp add: h')
  qed
  have fresh: "?n \<notin> snd ` set (inner_of h ic)" if "ic \<in> inner_addrs h t" for ic
    using allocated_set [OF al that, of ?n] by auto
  show inj': "table_inj ?h t"
    unfolding table_inj_def i o
  proof (intro conjI ballI impI)
    show "distinct (map fst (outer_of h t))" "distinct (map snd (outer_of h t))"
      using inj by (simp_all add: table_inj_def)
    show "distinct (map fst (inner_of ?h ic))" if "ic \<in> inner_addrs h t" for ic
      using inj that lk by (cases "ic = ia") (simp_all add: this_in other table_inj_def)
    show "distinct (map snd (inner_of ?h ic))" if "ic \<in> inner_addrs h t" for ic
      using inj that fresh [of ia] e
      by (cases "ic = ia") (simp_all add: this_in other table_inj_def)
    show "snd ` set (inner_of ?h ic) \<inter> snd ` set (inner_of ?h id) = {}"
      if m: "ic \<in> inner_addrs h t" "id \<in> inner_addrs h t" "ic \<noteq> id" for ic id
    proof -
      from inj m have d: "snd ` set (inner_of h ic) \<inter> snd ` set (inner_of h id) = {}"
        by (simp add: table_inj_def)
      consider "ic = ia" "id \<noteq> ia" | "id = ia" "ic \<noteq> ia" | "ic \<noteq> ia" "id \<noteq> ia"
        using m(3) by auto
      then show ?thesis
      proof cases
        case 1
        with d fresh [OF m(2)] show ?thesis by (simp add: this_in other)
      next
        case 2
        with d fresh [OF m(1)] show ?thesis by (simp add: this_in other)
      next
        case 3
        with d show ?thesis by (simp add: other)
      qed
    qed
  qed
  show "table_of ?h t = table_store (table_of h t) s l D"
  proof (rule alist_eqI)
    show "distinct (map fst (table_of ?h t))"
      using inj' by (simp add: keys_table_of table_inj_def)
    have "s \<in> set (map fst (outer_of h t))" using e by force
    then show "map fst (table_of ?h t) = map fst (table_store (table_of h t) s l D)"
      by (simp add: keys_table_of keys_table_store o)
    fix k assume "k \<in> set (map fst (table_of ?h t))"
    show "map_of (table_of ?h t) k = map_of (table_store (table_of h t) s l D) k"
    proof (cases "k = s")
      case True
      have "map_of (row_at h ia) l = None" using no by (simp add: map_of_row_at)
      then have "AList.update l D (row_at h ia) = row_at h ia @ [(l, D)]"
        by (rule update_absent)
      then show ?thesis
        using so no True
        by (simp add: map_of_table_of map_of_table_store o this_row row_of_table_of
            dests_table_of)
    next
      case False
      show ?thesis
      proof (cases "map_of (outer_of h t) k")
        case None
        with False show ?thesis by (simp add: map_of_table_of map_of_table_store o)
      next
        case (Some ic)
        note c = outer_entry [OF Some]
        have "ic \<noteq> ia" using inj_outer_key [OF inj, of s ia k] e c False by auto
        with other_row [of ic] c Some False show ?thesis
          by (simp add: map_of_table_of map_of_table_store o)
      qed
    qed
  qed
qed

lemma store_h_old_set:
  assumes al: "allocated h t" and inj: "table_inj h t"
    and so: "map_of (outer_of h t) s = Some ia"
    and ss: "map_of (inner_of h ia) l = Some sa"
  shows "table_of (store_h h t s l D) t = table_store (table_of h t) s l D"
    and "table_inj (store_h h t s l D) t"
proof -
  let ?h = "store_h h t s l D"
  have h': "?h = h\<lparr>set_of := (set_of h)(sa := set_of h sa \<union> D)\<rparr>"
    using so ss by (simp add: store_h_def)
  note e = outer_entry [OF so]
  note f = inner_entry [OF e [THEN conjunct2] ss]
  have o: "outer_of ?h t = outer_of h t" and io: "inner_of ?h = inner_of h"
    by (simp_all add: h')
  show inj': "table_inj ?h t"
    using inj by (simp add: table_inj_def inner_addrs_def h')
  have other_row: "row_at ?h ic = row_at h ic" if "ic \<in> inner_addrs h t" "ic \<noteq> ia" for ic
  proof (rule row_at_cong)
    show "inner_of ?h ic = inner_of h ic" by (simp add: io)
    fix sb assume b: "sb \<in> snd ` set (inner_of h ic)"
    from inj that e have "snd ` set (inner_of h ic) \<inter> snd ` set (inner_of h ia) = {}"
      by (simp add: table_inj_def)
    with b f have "sb \<noteq> sa" by force
    then show "set_of ?h sb = set_of h sb" by (simp add: h')
  qed
  have this_row: "row_at ?h ia = AList.update l (set_of h sa \<union> D) (row_at h ia)"
  proof (rule alist_eqI)
    from inj e show "distinct (map fst (row_at ?h ia))"
      by (simp add: keys_row_at io table_inj_def)
    have "l \<in> set (map fst (inner_of h ia))" using f by force
    then show "map fst (row_at ?h ia)
        = map fst (AList.update l (set_of h sa \<union> D) (row_at h ia))"
      by (simp add: keys_row_at keys_update io)
    fix k assume "k \<in> set (map fst (row_at ?h ia))"
    show "map_of (row_at ?h ia) k
        = map_of (AList.update l (set_of h sa \<union> D) (row_at h ia)) k"
    proof (cases "k = l")
      case True
      with ss show ?thesis by (simp add: map_of_row_at update_conv' io h')
    next
      case False
      show ?thesis
      proof (cases "map_of (inner_of h ia) k")
        case None
        with False show ?thesis by (simp add: map_of_row_at update_conv' io)
      next
        case (Some sb)
        from inner_entry [OF e [THEN conjunct2] Some] f False
        have "sb \<noteq> sa" using inj_inner_key [OF inj e [THEN conjunct2], of l sa k] by auto
        with Some False show ?thesis by (simp add: map_of_row_at update_conv' io h')
      qed
    qed
  qed
  show "table_of ?h t = table_store (table_of h t) s l D"
  proof (rule alist_eqI)
    show "distinct (map fst (table_of ?h t))"
      using inj' by (simp add: keys_table_of table_inj_def)
    have "s \<in> set (map fst (outer_of h t))" using e by force
    then show "map fst (table_of ?h t) = map fst (table_store (table_of h t) s l D)"
      by (simp add: keys_table_of keys_table_store o)
    fix k assume "k \<in> set (map fst (table_of ?h t))"
    show "map_of (table_of ?h t) k = map_of (table_store (table_of h t) s l D) k"
    proof (cases "k = s")
      case True
      then show ?thesis
        using so ss
        by (simp add: map_of_table_of map_of_table_store o this_row row_of_table_of
            dests_table_of)
    next
      case False
      show ?thesis
      proof (cases "map_of (outer_of h t) k")
        case None
        with False show ?thesis by (simp add: map_of_table_of map_of_table_store o)
      next
        case (Some ic)
        note c = outer_entry [OF Some]
        have "ic \<noteq> ia" using inj_outer_key [OF inj, of s ia k] e c False by auto
        with other_row [of ic] c Some False show ?thesis
          by (simp add: map_of_table_of map_of_table_store o)
      qed
    qed
  qed
qed

lemma store_h_refines:
  assumes "allocated h t" "table_inj h t"
  shows "table_of (store_h h t s l D) t = table_store (table_of h t) s l D"
    and "table_inj (store_h h t s l D) t"
proof -
  have "table_of (store_h h t s l D) t = table_store (table_of h t) s l D
      \<and> table_inj (store_h h t s l D) t"
  proof (cases "map_of (outer_of h t) s")
    case None
    from store_h_new_row [OF assms None] show ?thesis by simp
  next
    case (Some ia)
    show ?thesis
    proof (cases "map_of (inner_of h ia) l")
      case None
      from store_h_new_set [OF assms Some None] show ?thesis by simp
    next
      case (Some sa)
      from store_h_old_set [OF assms \<open>map_of (outer_of h t) s = Some ia\<close> Some]
      show ?thesis by simp
    qed
  qed
  then show "table_of (store_h h t s l D) t = table_store (table_of h t) s l D"
    and "table_inj (store_h h t s l D) t" by simp_all
qed

lemma add_transition_h_refines:
  assumes "allocated h t" "table_inj h t"
  shows "table_of (add_transition_h h t s l d) t = add_transition (table_of h t) s l d"
    and "table_inj (add_transition_h h t s l d) t"
    and "allocated (add_transition_h h t s l d) t"
    and "within t h (add_transition_h h t s l d)"
  using store_h_refines [OF assms, of s l "{d}"] store_h_within [OF assms(1), of s l "{d}"]
    allocated_within [OF assms(1), of "store_h h t s l {d}"]
  by (simp_all add: add_transition_h_def add_transition_store)

lemma within_unchanged_set:
  "within t h h' \<Longrightarrow> sa < next_addr h \<Longrightarrow> sa \<notin> set_addrs h t \<Longrightarrow> set_of h' sa = set_of h sa"
  by (simp add: within_def)

lemma within_keeps_out:
  assumes "within t h h'" "a < next_addr h"
  shows "a \<notin> inner_addrs h t \<Longrightarrow> a \<notin> inner_addrs h' t"
    and "a \<notin> set_addrs h t \<Longrightarrow> a \<notin> set_addrs h' t"
    and "a < next_addr h'"
  using assms by (auto simp: within_def)

lemma merge_row_h_refines:
  assumes "allocated h t" "table_inj h t"
    and "\<And>l sa. (l, sa) \<in> set items \<Longrightarrow> sa < next_addr h \<and> sa \<notin> set_addrs h t"
  shows "table_of (merge_row_h h t s items) t
       = merge_row s (map (\<lambda>(l, sa). (l, set_of h sa)) items) (table_of h t)
     \<and> table_inj (merge_row_h h t s items) t"
  using assms
proof (induction items arbitrary: h)
  case Nil
  then show ?case by simp
next
  case (Cons e items)
  obtain l sa where e: "e = (l, sa)" by (cases e)
  let ?h = "store_h h t s l (set_of h sa)"
  note r = store_h_refines [OF Cons.prems(1,2), of s l "set_of h sa"]
  note w = store_h_within [OF Cons.prems(1), of s l "set_of h sa"]
  have a: "allocated ?h t" by (rule allocated_within [OF Cons.prems(1) w])
  have out: "sb < next_addr ?h \<and> sb \<notin> set_addrs ?h t" if "(k, sb) \<in> set items" for k sb
    using Cons.prems(3) [of k sb] that within_keeps_out(2,3) [OF w, of sb] by simp
  have same: "map (\<lambda>(l, sa). (l, set_of ?h sa)) items = map (\<lambda>(l, sa). (l, set_of h sa)) items"
  proof (rule map_cong [OF refl])
    fix x assume x: "x \<in> set items"
    obtain k sb where xe: "x = (k, sb)" by (cases x)
    from Cons.prems(3) [of k sb] x xe within_unchanged_set [OF w, of sb]
    show "(case x of (l, sa) \<Rightarrow> (l, set_of ?h sa)) = (case x of (l, sa) \<Rightarrow> (l, set_of h sa))"
      by simp
  qed
  from Cons.IH [OF a r(2) out] show ?case
    unfolding e by (simp only: merge_row_h.simps list.map prod.case merge_row_store same r(1))
qed

lemma merge_states_h_refines:
  assumes "allocated h t" "table_inj h t"
    and "\<And>s ia. (s, ia) \<in> set entries \<Longrightarrow> ia < next_addr h \<and> ia \<notin> inner_addrs h t
          \<and> (\<forall>sa \<in> snd ` set (inner_of h ia). sa < next_addr h \<and> sa \<notin> set_addrs h t)"
  shows "table_of (merge_states_h h t entries) t
       = merge_table (map (\<lambda>(s, ia). (s, row_at h ia)) entries) (table_of h t)
     \<and> table_inj (merge_states_h h t entries) t"
  using assms
proof (induction entries arbitrary: h)
  case Nil
  then show ?case by simp
next
  case (Cons e entries)
  obtain s ia where e: "e = (s, ia)" by (cases e)
  let ?h = "merge_row_h h t s (inner_of h ia)"
  have items: "sa < next_addr h \<and> sa \<notin> set_addrs h t" if "(l, sa) \<in> set (inner_of h ia)" for l sa
    using Cons.prems(3) [of s ia] that by (force simp: e)
  note r = merge_row_h_refines [where s = s and items = "inner_of h ia", OF Cons.prems(1,2) items]
  note w = merge_row_h_within [OF Cons.prems(1), of s "inner_of h ia"]
  have a: "allocated ?h t" by (rule allocated_within [OF Cons.prems(1) w])
  have keep: "inner_of ?h ib = inner_of h ib \<and> row_at ?h ib = row_at h ib"
    if "(k, ib) \<in> set (e # entries)" for k ib
  proof -
    from Cons.prems(3) [OF that] have b: "ib < next_addr h" "ib \<notin> inner_addrs h t"
      and c: "\<And>sa. sa \<in> snd ` set (inner_of h ib) \<Longrightarrow> sa < next_addr h \<and> sa \<notin> set_addrs h t"
      by auto
    from w b have i: "inner_of ?h ib = inner_of h ib" by (simp add: within_def)
    moreover have "row_at ?h ib = row_at h ib"
      by (rule row_at_cong [OF i]) (use c w in \<open>simp add: within_unchanged_set\<close>)
    ultimately show ?thesis by simp
  qed
  have out: "ib < next_addr ?h \<and> ib \<notin> inner_addrs ?h t
      \<and> (\<forall>sa \<in> snd ` set (inner_of ?h ib). sa < next_addr ?h \<and> sa \<notin> set_addrs ?h t)"
    if m: "(k, ib) \<in> set entries" for k ib
  proof -
    from m have m': "(k, ib) \<in> set (e # entries)" by simp
    from Cons.prems(3) [OF m'] have b: "ib < next_addr h" "ib \<notin> inner_addrs h t"
      and c: "\<And>sa. sa \<in> snd ` set (inner_of h ib) \<Longrightarrow> sa < next_addr h \<and> sa \<notin> set_addrs h t"
      by auto
    show ?thesis
      using within_keeps_out [OF w] b c keep [OF m'] by auto
  qed
  have same: "map (\<lambda>(s, ia). (s, row_at ?h ia)) entries = map (\<lambda>(s, ia). (s, row_at h ia)) entries"
  proof (rule map_cong [OF refl])
    fix x assume x: "x \<in> set entries"
    obtain k ib where xe: "x = (k, ib)" by (cases x)
    from keep [of k ib] x xe
    show "(case x of (s, ia) \<Rightarrow> (s, row_at ?h ia)) = (case x of (s, ia) \<Rightarrow> (s, row_at h ia))"
      by simp
  qed
  from r have r1: "table_of ?h t = merge_row s (row_at h ia) (table_of h t)"
    and r2: "table_inj ?h t"
    by (simp_all add: row_at_def)
  from Cons.IH [OF a r2 out] show ?case
    unfolding e by (simp only: merge_states_h.simps list.map prod.case merge_table.simps same r1)
qed

lemma merge_table_h_refines:
  assumes "allocated h t" "table_inj h t" "allocated h t2"
    and "inner_addrs h t2 \<inter> inner_addrs h t = {}" "set_addrs h t2 \<inter> set_addrs h t = {}"
  shows "table_of (merge_table_h h t t2) t = merge_table (table_of h t2) (table_of h t)"
    and "table_inj (merge_table_h h t t2) t"
proof -
  have "ia < next_addr h \<and> ia \<notin> inner_addrs h t
      \<and> (\<forall>sa \<in> snd ` set (inner_of h ia). sa < next_addr h \<and> sa \<notin> set_addrs h t)"
    if "(s, ia) \<in> set (outer_of h t2)" for s ia
  proof -
    from that have i: "ia \<in> inner_addrs h t2" by (force simp: inner_addrs_def)
    then have "snd ` set (inner_of h ia) \<subseteq> set_addrs h t2" by (auto simp: set_addrs_def)
    with i assms(3,4,5) show ?thesis by (auto simp: allocated_def)
  qed
  from merge_states_h_refines [where entries = "outer_of h t2", OF assms(1,2) this]
  show "table_of (merge_table_h h t t2) t = merge_table (table_of h t2) (table_of h t)"
    and "table_inj (merge_table_h h t t2) t"
    by (simp_all add: merge_table_h_def table_of_rows)
qed

section \<open>The store construction builds the automata of the tables construction\<close>

lemma copy_table_of: "table_of (fst (copy_dict h t1)) (next_addr h) = table_of h t1"
  by (simp add: copy_dict_def table_of_def)

lemma copy_table_inj: "table_inj h t1 \<Longrightarrow> table_inj (fst (copy_dict h t1)) (next_addr h)"
  by (simp add: copy_dict_def table_inj_def inner_addrs_def)

lemma new_table_of: "table_of (fst (new_dict h)) (next_addr h) = []"
  by (simp add: new_dict_def table_of_def)

lemma new_table_inj: "table_inj (fst (new_dict h)) (next_addr h)"
  by (simp add: new_dict_def table_inj_def inner_addrs_def)

lemma same_on_table_inj: "same_on u h h' \<Longrightarrow> table_inj h u \<Longrightarrow> table_inj h' u"
  using same_on_addrs(1) [of u h h'] by (simp add: table_inj_def same_on_def)

lemma chain_start: "within t h1 h1 \<and> table_inj h1 t \<and> table_of h1 t = table_of h1 t"
  if "table_inj h1 t"
  using that by (simp add: within_refl)

lemma chain_add:
  assumes "allocated h1 t" "within t h1 h \<and> table_inj h t \<and> table_of h t = T"
  shows "within t h1 (add_transition_h h t s l d)
     \<and> table_inj (add_transition_h h t s l d) t
     \<and> table_of (add_transition_h h t s l d) t = add_transition T s l d"
proof -
  from assms have a: "allocated h t" by (auto intro: allocated_within)
  from add_transition_h_refines [OF a, of s l d] assms(2) show ?thesis
    by (auto intro: within_trans)
qed

lemma copy_other:
  assumes "allocated h u"
  shows "same_on u h (fst (copy_dict h t1))"
  using assms by (auto simp: same_on_def copy_dict_def allocated_def)

lemma chain_merge:
  assumes a1: "allocated h t1" and a2: "allocated h t2" and inj: "table_inj h t1"
    and dj: "inner_addrs h t2 \<inter> inner_addrs h t1 = {}" "set_addrs h t2 \<inter> set_addrs h t1 = {}"
  shows "within (next_addr h) (fst (copy_dict h t1))
        (merge_table_h (fst (copy_dict h t1)) (next_addr h) t2)
     \<and> table_inj (merge_table_h (fst (copy_dict h t1)) (next_addr h) t2) (next_addr h)
     \<and> table_of (merge_table_h (fst (copy_dict h t1)) (next_addr h) t2) (next_addr h)
         = merge_table (table_of h t2) (table_of h t1)"
proof -
  let ?h1 = "fst (copy_dict h t1)"
  let ?t = "next_addr h"
  have a: "allocated ?h1 ?t" by (rule copy_allocated [OF a1])
  have i: "table_inj ?h1 ?t" by (rule copy_table_inj [OF inj])
  note s2 = copy_other [OF a2, of t1]
  have a2': "allocated ?h1 t2"
    by (rule same_on_allocated [OF s2 a2]) (simp add: copy_dict_def)
  have ia: "inner_addrs ?h1 ?t = inner_addrs h t1" by (simp add: copy_dict_def inner_addrs_def)
  have sa: "set_addrs ?h1 ?t = set_addrs h t1" unfolding set_addrs_def ia by (simp add: copy_dict_def)
  have d: "inner_addrs ?h1 t2 \<inter> inner_addrs ?h1 ?t = {}" "set_addrs ?h1 t2 \<inter> set_addrs ?h1 ?t = {}"
    unfolding ia sa same_on_addrs(1,2) [OF s2] by (rule dj)+
  from merge_table_h_refines [OF a i a2' d] merge_table_h_within [OF a, of t2]
  show ?thesis by (simp add: same_on_addrs(3) [OF s2] copy_table_of)
qed

lemma finish_push:
  assumes p: "heap_ok h' (\<lparr>frag_start = a, frag_accept = b, frag_table = t\<rparr> # rest)"
      "\<forall>G \<in> set rest. same_on (frag_table G) h h'"
    and inj: "\<forall>F \<in> set rest. table_inj h (frag_table F)"
    and c: "within t h1 h' \<and> table_inj h' t \<and> table_of h' t = T"
  shows "map (nfa_of h') (\<lparr>frag_start = a, frag_accept = b, frag_table = t\<rparr> # rest)
       = \<lparr>start_state = a, accept_state = b, transitions = T\<rparr> # map (nfa_of h) rest
     \<and> heap_ok h' (\<lparr>frag_start = a, frag_accept = b, frag_table = t\<rparr> # rest)
     \<and> (\<forall>F \<in> set (\<lparr>frag_start = a, frag_accept = b, frag_table = t\<rparr> # rest).
          table_inj h' (frag_table F))"
proof -
  have "map (nfa_of h') rest = map (nfa_of h) rest"
    using p(2) by (simp add: nfa_of_same_on)
  moreover have "\<forall>F \<in> set rest. table_inj h' (frag_table F)"
    using p(2) inj by (auto intro: same_on_table_inj)
  ultimately show ?thesis using p(1) c by (simp add: nfa_of_def)
qed

lemma finish_copy:
  assumes ok: "heap_ok h (F1 # rest)" and inj: "\<forall>F \<in> set rest. table_inj h (frag_table F)"
    and c: "within (next_addr h) (fst (copy_dict h (frag_table F1))) h'
        \<and> table_inj h' (next_addr h) \<and> table_of h' (next_addr h) = T"
  shows "map (nfa_of h') (\<lparr>frag_start = a, frag_accept = b, frag_table = next_addr h\<rparr> # rest)
       = \<lparr>start_state = a, accept_state = b, transitions = T\<rparr> # map (nfa_of h) rest
     \<and> heap_ok h' (\<lparr>frag_start = a, frag_accept = b, frag_table = next_addr h\<rparr> # rest)
     \<and> (\<forall>F \<in> set (\<lparr>frag_start = a, frag_accept = b, frag_table = next_addr h\<rparr> # rest).
          table_inj h' (frag_table F))"
  by (rule finish_push [OF copy_push [OF ok c [THEN conjunct1]] inj c])

lemma finish_new:
  assumes ok: "heap_ok h rest" and inj: "\<forall>F \<in> set rest. table_inj h (frag_table F)"
    and c: "within (next_addr h) (fst (new_dict h)) h'
        \<and> table_inj h' (next_addr h) \<and> table_of h' (next_addr h) = T"
  shows "map (nfa_of h') (\<lparr>frag_start = a, frag_accept = b, frag_table = next_addr h\<rparr> # rest)
       = \<lparr>start_state = a, accept_state = b, transitions = T\<rparr> # map (nfa_of h) rest
     \<and> heap_ok h' (\<lparr>frag_start = a, frag_accept = b, frag_table = next_addr h\<rparr> # rest)
     \<and> (\<forall>F \<in> set (\<lparr>frag_start = a, frag_accept = b, frag_table = next_addr h\<rparr> # rest).
          table_inj h' (frag_table F))"
  by (rule finish_push [OF new_push [OF ok c [THEN conjunct1]] inj c])

lemma literal_refines:
  assumes "store_ok h stack" "c \<notin> set [STAR, PLUS, QMARK, DOT, BAR]"
  shows "\<exists>h' stack'. eval_token_h c (h, stack, n) = Inr (h', stack', n + 2)
     \<and> eval_token c (map (nfa_of h) stack, n) = Inr (map (nfa_of h') stack', n + 2)
     \<and> store_ok h' stack'"
proof -
  let ?h1 = "fst (new_dict h)"
  let ?t = "next_addr h"
  from assms(1) have ok: "heap_ok h stack" and inj: "\<forall>F \<in> set stack. table_inj h (frag_table F)"
    by (simp_all add: store_ok_def)
  note c0 = chain_start [OF new_table_inj [of h]]
  note c1 = chain_add [OF new_allocated c0, of n c "n + 1"]
  note f = finish_new [OF ok inj c1, of n "n + 1"]
  show ?thesis
    unfolding eval_literal_h [OF assms(2)]
    using f assms(2) by (simp add: store_ok_def eval_token_def Let_def new_table_of)
qed

lemma eval_star:
  "eval_token STAR (F # stack, n) =
     Inr (\<lparr>start_state = n, accept_state = n + 1, transitions =
            add_transition (add_transition (add_transition (add_transition (transitions F)
              n EPS (start_state F)) (accept_state F) EPS (start_state F)) n EPS (n + 1))
              (accept_state F) EPS (n + 1)\<rparr> # stack, n + 2)"
  by (simp add: eval_token_def Let_def)

lemma eval_plus:
  "eval_token PLUS (F # stack, n) =
     Inr (\<lparr>start_state = n, accept_state = n + 1, transitions =
            add_transition (add_transition (add_transition (transitions F)
              n EPS (start_state F)) (accept_state F) EPS (start_state F))
              (accept_state F) EPS (n + 1)\<rparr> # stack, n + 2)"
  by (simp add: eval_token_def Let_def)

lemma eval_option:
  "eval_token QMARK (F # stack, n) =
     Inr (\<lparr>start_state = n, accept_state = n + 1, transitions =
            add_transition (add_transition (add_transition (transitions F)
              n EPS (start_state F)) (accept_state F) EPS (n + 1)) n EPS (n + 1)\<rparr> # stack,
          n + 2)"
  by (simp add: eval_token_def Let_def)

lemma eval_concat:
  "eval_token DOT (F2 # F1 # stack, n) =
     Inr (\<lparr>start_state = start_state F1, accept_state = accept_state F2, transitions =
            add_transition (merge_table (transitions F2) (transitions F1))
              (accept_state F1) EPS (start_state F2)\<rparr> # stack, n)"
  by (simp add: eval_token_def Let_def)

lemma eval_union:
  "eval_token BAR (F2 # F1 # stack, n) =
     Inr (\<lparr>start_state = n, accept_state = n + 1, transitions =
            add_transition (add_transition (add_transition (add_transition
              (merge_table (transitions F2) (transitions F1))
              n EPS (start_state F1)) n EPS (start_state F2))
              (accept_state F1) EPS (n + 1)) (accept_state F2) EPS (n + 1)\<rparr> # stack, n + 2)"
  by (simp add: eval_token_def Let_def)

lemma nfa_of_fields:
  "start_state (nfa_of h F) = frag_start F" "accept_state (nfa_of h F) = frag_accept F"
  "transitions (nfa_of h F) = table_of h (frag_table F)"
  by (simp_all add: nfa_of_def)

lemma store_ok_top:
  assumes "store_ok h (F # rest)"
  shows "heap_ok h (F # rest)" "\<forall>G \<in> set rest. table_inj h (frag_table G)"
    "allocated (fst (copy_dict h (frag_table F))) (next_addr h)"
    "within (next_addr h) (fst (copy_dict h (frag_table F))) (fst (copy_dict h (frag_table F)))
     \<and> table_inj (fst (copy_dict h (frag_table F))) (next_addr h)
     \<and> table_of (fst (copy_dict h (frag_table F))) (next_addr h) = table_of h (frag_table F)"
  using assms
  by (simp_all add: store_ok_def heap_ok_def copy_allocated copy_table_inj copy_table_of
      within_refl)

lemma star_refines:
  assumes "store_ok h (F # rest)"
  shows "\<exists>h' stack'. eval_token_h STAR (h, F # rest, n) = Inr (h', stack', n + 2)
     \<and> eval_token STAR (map (nfa_of h) (F # rest), n) = Inr (map (nfa_of h') stack', n + 2)
     \<and> store_ok h' stack'"
proof -
  note t = store_ok_top [OF assms]
  note c1 = chain_add [OF t(3) t(4), of n EPS "frag_start F"]
  note c2 = chain_add [OF t(3) c1, of "frag_accept F" EPS "frag_start F"]
  note c3 = chain_add [OF t(3) c2, of n EPS "n + 1"]
  note c4 = chain_add [OF t(3) c3, of "frag_accept F" EPS "n + 1"]
  note f = finish_copy [OF t(1,2) c4, of n "n + 1"]
  show ?thesis
    unfolding eval_star_h list.map eval_star nfa_of_fields
    using f by (simp add: store_ok_def)
qed

lemma plus_refines:
  assumes "store_ok h (F # rest)"
  shows "\<exists>h' stack'. eval_token_h PLUS (h, F # rest, n) = Inr (h', stack', n + 2)
     \<and> eval_token PLUS (map (nfa_of h) (F # rest), n) = Inr (map (nfa_of h') stack', n + 2)
     \<and> store_ok h' stack'"
proof -
  note t = store_ok_top [OF assms]
  note c1 = chain_add [OF t(3) t(4), of n EPS "frag_start F"]
  note c2 = chain_add [OF t(3) c1, of "frag_accept F" EPS "frag_start F"]
  note c3 = chain_add [OF t(3) c2, of "frag_accept F" EPS "n + 1"]
  note f = finish_copy [OF t(1,2) c3, of n "n + 1"]
  show ?thesis
    unfolding eval_plus_h list.map eval_plus nfa_of_fields
    using f by (simp add: store_ok_def)
qed

lemma option_refines:
  assumes "store_ok h (F # rest)"
  shows "\<exists>h' stack'. eval_token_h QMARK (h, F # rest, n) = Inr (h', stack', n + 2)
     \<and> eval_token QMARK (map (nfa_of h) (F # rest), n) = Inr (map (nfa_of h') stack', n + 2)
     \<and> store_ok h' stack'"
proof -
  note t = store_ok_top [OF assms]
  note c1 = chain_add [OF t(3) t(4), of n EPS "frag_start F"]
  note c2 = chain_add [OF t(3) c1, of "frag_accept F" EPS "n + 1"]
  note c3 = chain_add [OF t(3) c2, of n EPS "n + 1"]
  note f = finish_copy [OF t(1,2) c3, of n "n + 1"]
  show ?thesis
    unfolding eval_option_h list.map eval_option nfa_of_fields
    using f by (simp add: store_ok_def)
qed

lemma store_ok_two:
  assumes "store_ok h (F2 # F1 # rest)"
  shows "heap_ok h (F1 # rest)" "\<forall>G \<in> set rest. table_inj h (frag_table G)"
    "allocated (fst (copy_dict h (frag_table F1))) (next_addr h)"
    "within (next_addr h) (fst (copy_dict h (frag_table F1)))
        (merge_table_h (fst (copy_dict h (frag_table F1))) (next_addr h) (frag_table F2))
     \<and> table_inj (merge_table_h (fst (copy_dict h (frag_table F1))) (next_addr h)
          (frag_table F2)) (next_addr h)
     \<and> table_of (merge_table_h (fst (copy_dict h (frag_table F1))) (next_addr h)
          (frag_table F2)) (next_addr h)
         = merge_table (table_of h (frag_table F2)) (table_of h (frag_table F1))"
proof -
  from assms have ok: "heap_ok h (F2 # F1 # rest)"
    and i1: "table_inj h (frag_table F1)"
    by (simp_all add: store_ok_def)
  from ok show "heap_ok h (F1 # rest)" by (rule heap_ok_drop_top)
  from assms show "\<forall>G \<in> set rest. table_inj h (frag_table G)" by (simp add: store_ok_def)
  from ok have a1: "allocated h (frag_table F1)" and a2: "allocated h (frag_table F2)"
    and s: "separate h F2 F1"
    by (simp_all add: heap_ok_def)
  from a1 show "allocated (fst (copy_dict h (frag_table F1))) (next_addr h)"
    by (rule copy_allocated)
  from s have d: "inner_addrs h (frag_table F2) \<inter> inner_addrs h (frag_table F1) = {}"
    "set_addrs h (frag_table F2) \<inter> set_addrs h (frag_table F1) = {}"
    by (simp_all add: separate_def)
  show "within (next_addr h) (fst (copy_dict h (frag_table F1)))
        (merge_table_h (fst (copy_dict h (frag_table F1))) (next_addr h) (frag_table F2))
     \<and> table_inj (merge_table_h (fst (copy_dict h (frag_table F1))) (next_addr h)
          (frag_table F2)) (next_addr h)
     \<and> table_of (merge_table_h (fst (copy_dict h (frag_table F1))) (next_addr h)
          (frag_table F2)) (next_addr h)
         = merge_table (table_of h (frag_table F2)) (table_of h (frag_table F1))"
    by (rule chain_merge [OF a1 a2 i1 d])
qed

lemma concat_refines:
  assumes "store_ok h (F2 # F1 # rest)"
  shows "\<exists>h' stack'. eval_token_h DOT (h, F2 # F1 # rest, n) = Inr (h', stack', n)
     \<and> eval_token DOT (map (nfa_of h) (F2 # F1 # rest), n) = Inr (map (nfa_of h') stack', n)
     \<and> store_ok h' stack'"
proof -
  note t = store_ok_two [OF assms]
  note c1 = chain_add [OF t(3) t(4), of "frag_accept F1" EPS "frag_start F2"]
  note f = finish_copy [OF t(1,2) c1, of "frag_start F1" "frag_accept F2"]
  show ?thesis
    unfolding eval_concat_h list.map eval_concat nfa_of_fields
    using f by (simp add: store_ok_def)
qed

lemma union_refines:
  assumes "store_ok h (F2 # F1 # rest)"
  shows "\<exists>h' stack'. eval_token_h BAR (h, F2 # F1 # rest, n) = Inr (h', stack', n + 2)
     \<and> eval_token BAR (map (nfa_of h) (F2 # F1 # rest), n) = Inr (map (nfa_of h') stack', n + 2)
     \<and> store_ok h' stack'"
proof -
  note t = store_ok_two [OF assms]
  note c1 = chain_add [OF t(3) t(4), of n EPS "frag_start F1"]
  note c2 = chain_add [OF t(3) c1, of n EPS "frag_start F2"]
  note c3 = chain_add [OF t(3) c2, of "frag_accept F1" EPS "n + 1"]
  note c4 = chain_add [OF t(3) c3, of "frag_accept F2" EPS "n + 1"]
  note f = finish_copy [OF t(1,2) c4, of n "n + 1"]
  show ?thesis
    unfolding eval_union_h list.map eval_union nfa_of_fields
    using f by (simp add: store_ok_def)
qed

lemma eval_unary_empty:
  "c = STAR \<or> c = PLUS \<or> c = QMARK \<Longrightarrow> eval_token c ([], n) = Inl IndexError"
  by (auto simp: eval_token_def)

lemma eval_binary_short:
  "c = DOT \<or> c = BAR \<Longrightarrow> length stack < 2 \<Longrightarrow> eval_token c (stack, n) = Inl IndexError"
  by (cases stack; cases "tl stack") (auto simp: eval_token_def)

lemma eval_token_h_refines:
  assumes ok: "store_ok h stack"
  shows "(\<exists>e. eval_token_h c (h, stack, n) = Inl e
            \<and> eval_token c (map (nfa_of h) stack, n) = Inl e)
     \<or> (\<exists>h' stack' n'. eval_token_h c (h, stack, n) = Inr (h', stack', n')
            \<and> eval_token c (map (nfa_of h) stack, n) = Inr (map (nfa_of h') stack', n')
            \<and> store_ok h' stack')"
proof -
  consider (lit) "c \<notin> set [STAR, PLUS, QMARK, DOT, BAR]"
    | (unary) "c = STAR \<or> c = PLUS \<or> c = QMARK"
    | (binary) "c = DOT \<or> c = BAR"
    by auto
  then show ?thesis
  proof cases
    case lit
    from literal_refines [OF ok lit, of n] show ?thesis by blast
  next
    case unary
    show ?thesis
    proof (cases stack)
      case Nil
      with unary show ?thesis
        by (simp add: eval_unary_h_empty eval_unary_empty)
    next
      case (Cons F rest)
      from unary star_refines [OF ok [unfolded Cons], of n]
        plus_refines [OF ok [unfolded Cons], of n] option_refines [OF ok [unfolded Cons], of n]
      show ?thesis unfolding Cons by blast
    qed
  next
    case binary
    show ?thesis
    proof (cases "length stack < 2")
      case True
      with binary show ?thesis
        by (simp add: eval_binary_h_short eval_binary_short)
    next
      case False
      then obtain F2 F1 rest where st: "stack = F2 # F1 # rest"
        by (cases stack; cases "tl stack") auto
      from binary concat_refines [OF ok [unfolded st], of n]
        union_refines [OF ok [unfolded st], of n]
      show ?thesis unfolding st by blast
    qed
  qed
qed

lemma eval_tokens_h_refines:
  assumes "store_ok h stack"
  shows "(\<exists>e. eval_tokens_h p (h, stack, n) = Inl e
            \<and> eval_tokens p (map (nfa_of h) stack, n) = Inl e)
     \<or> (\<exists>h' stack' n'. eval_tokens_h p (h, stack, n) = Inr (h', stack', n')
            \<and> eval_tokens p (map (nfa_of h) stack, n) = Inr (map (nfa_of h') stack', n'))"
  using assms
proof (induction p arbitrary: h stack n)
  case Nil
  then show ?case by simp
next
  case (Cons c p)
  from eval_token_h_refines [OF Cons.prems, of c n] show ?case
  proof (elim disjE exE conjE)
    fix e assume "eval_token_h c (h, stack, n) = Inl e"
      "eval_token c (map (nfa_of h) stack, n) = Inl e"
    then show ?thesis by simp
  next
    fix h1 st1 n1
    assume e: "eval_token_h c (h, stack, n) = Inr (h1, st1, n1)"
      "eval_token c (map (nfa_of h) stack, n) = Inr (map (nfa_of h1) st1, n1)"
      and ok: "store_ok h1 st1"
    from Cons.IH [OF ok, of n1] e show ?thesis by simp
  qed
qed

lemma store_ok_empty: "store_ok empty_heap []"
  by (simp add: store_ok_def heap_ok_empty)

text \<open>
  The construction on the store returns the automaton of the construction on tables, and
  fails where and as it fails.
\<close>

lemma postfix_to_nfa_h_refines:
  "postfix_to_nfa postfix =
     (case postfix_to_nfa_h postfix of Inl e \<Rightarrow> Inl e | Inr (h, F) \<Rightarrow> Inr (nfa_of h F))"
  using eval_tokens_h_refines [OF store_ok_empty, of postfix 0]
  by (auto simp: postfix_to_nfa_def postfix_to_nfa_h_def hd_map length_Suc_conv
      split: sum.splits prod.splits)

text \<open>
  Fragments that are on the stack together. In every state the evaluator reaches on the
  store, the stack holds the automata of the evaluator on tables, and two fragments at
  different positions of the stack have different outer dictionaries, no row and no
  destination set in common; adding a transition to the table of one leaves the automaton of
  the other as it is; and the next token, whatever it is, leaves the automata of the
  fragments that stay on the stack as they are.
\<close>

lemma stack_fragments_share_nothing:
  assumes "eval_tokens_h p (empty_heap, [], 0) = Inr (h, stack, n)"
  shows "eval_tokens p ([], 0) = Inr (map (nfa_of h) stack, n)
     \<and> (\<forall>i j. i < length stack \<and> j < length stack \<and> i \<noteq> j \<longrightarrow>
        separate h (stack ! i) (stack ! j)
        \<and> (\<forall>s l d. nfa_of (add_transition_h h (frag_table (stack ! i)) s l d) (stack ! j)
                    = nfa_of h (stack ! j)))
     \<and> (\<forall>c h' stack' n'. eval_token_h c (h, stack, n) = Inr (h', stack', n') \<longrightarrow>
          (\<exists>G front rest. stack' = G # rest \<and> stack = front @ rest
             \<and> (\<forall>F \<in> set rest. nfa_of h' F = nfa_of h F)))"
proof -
  from eval_tokens_h_ok [OF heap_ok_empty assms] have ok: "heap_ok h stack" .
  from eval_tokens_h_refines [OF store_ok_empty, of p 0] assms
  have tables: "eval_tokens p ([], 0) = Inr (map (nfa_of h) stack, n)" by auto
  have "separate h (stack ! i) (stack ! j)
      \<and> (\<forall>s l d. nfa_of (add_transition_h h (frag_table (stack ! i)) s l d) (stack ! j)
            = nfa_of h (stack ! j))"
    if "i < length stack" "j < length stack" "i \<noteq> j" for i j
  proof -
    from ok that have "separate h (stack ! i) (stack ! j)"
      by (simp add: heap_ok_def all_separate_nth)
    moreover from ok that have "allocated h (frag_table (stack ! i))"
      "allocated h (frag_table (stack ! j))"
      by (simp_all add: heap_ok_def)
    ultimately show ?thesis by (simp add: separate_frame)
  qed
  moreover have "\<exists>G front rest. stack' = G # rest \<and> stack = front @ rest
      \<and> (\<forall>F \<in> set rest. nfa_of h' F = nfa_of h F)"
    if "eval_token_h c (h, stack, n) = Inr (h', stack', n')" for c h' stack' n'
    using eval_token_h_step [OF ok that] by (auto simp: nfa_of_same_on)
  ultimately show ?thesis using tables by blast
qed

lemma stack_fragments_share_nothing_witness:
  "\<exists>h A B n. eval_tokens_h (str ''ab'') (empty_heap, [], 0) = Inr (h, [B, A], n)
     \<and> eval_tokens (str ''ab'') ([], 0) = Inr ([nfa_of h B, nfa_of h A], n)
     \<and> separate h B A \<and> separate h A B
     \<and> (\<forall>s l d. nfa_of (add_transition_h h (frag_table B) s l d) A = nfa_of h A)
     \<and> (\<forall>s l d. nfa_of (add_transition_h h (frag_table A) s l d) B = nfa_of h B)
     \<and> (\<exists>G. eval_token_h DOT (h, [B, A], n) = Inr (add_transition_h
            (merge_table_h (fst (copy_dict h (frag_table A))) (next_addr h) (frag_table B))
            (next_addr h) (frag_accept A) EPS (frag_start B), [G], n))"
proof -
  let ?h1 = "add_transition_h (fst (new_dict empty_heap)) (next_addr empty_heap) 0 97 (0 + 1)"
  let ?A = "\<lparr>frag_start = 0, frag_accept = 0 + 1, frag_table = next_addr empty_heap\<rparr>"
  let ?h2 = "add_transition_h (fst (new_dict ?h1)) (next_addr ?h1) (0 + 2) 98 (0 + 2 + 1)"
  let ?B = "\<lparr>frag_start = 0 + 2, frag_accept = 0 + 2 + 1, frag_table = next_addr ?h1\<rparr>"
  have e: "eval_tokens_h (str ''ab'') (empty_heap, [], 0) = Inr (?h2, [?B, ?A], 0 + 2 + 2)"
    unfolding str_def by (simp add: eval_literal_h del: add_2_eq_Suc add_2_eq_Suc')
  note t = stack_fragments_share_nothing [OF e]
  from t have p: "separate ?h2 ([?B, ?A] ! i) ([?B, ?A] ! j)
      \<and> (\<forall>s l d. nfa_of (add_transition_h ?h2 (frag_table ([?B, ?A] ! i)) s l d) ([?B, ?A] ! j)
            = nfa_of ?h2 ([?B, ?A] ! j))"
    if "i < 2" "j < 2" "i \<noteq> j" for i j
    using that by simp
  from t have "eval_tokens (str ''ab'') ([], 0) = Inr (map (nfa_of ?h2) [?B, ?A], 0 + 2 + 2)"
    by (rule conjunct1)
  then have q: "eval_tokens (str ''ab'') ([], 0) = Inr ([nfa_of ?h2 ?B, nfa_of ?h2 ?A], 0 + 2 + 2)"
    by (simp only: list.map)
  from p [of 0 1] p [of 1 0] have
    "separate ?h2 ?B ?A \<and> separate ?h2 ?A ?B
     \<and> (\<forall>s l d. nfa_of (add_transition_h ?h2 (frag_table ?B) s l d) ?A = nfa_of ?h2 ?A)
     \<and> (\<forall>s l d. nfa_of (add_transition_h ?h2 (frag_table ?A) s l d) ?B = nfa_of ?h2 ?B)"
    by simp
  moreover have "\<exists>G. eval_token_h DOT (?h2, [?B, ?A], 0 + 2 + 2) = Inr (add_transition_h
            (merge_table_h (fst (copy_dict ?h2 (frag_table ?A))) (next_addr ?h2) (frag_table ?B))
            (next_addr ?h2) (frag_accept ?A) EPS (frag_start ?B), [G], 0 + 2 + 2)"
    by (simp add: eval_concat_h)
  ultimately show ?thesis using e q by blast
qed

section \<open>A composed fragment and its operand\<close>


section \<open>Every well-formed expression is converted\<close>

lemma tokens_depth_append:
  "tokens_depth (p @ q) k = (case tokens_depth p k of None \<Rightarrow> None | Some k' \<Rightarrow> tokens_depth q k')"
  by (induction p arbitrary: k) (auto split: option.splits)

lemma eval_token_depth:
  assumes "token_depth c (length stack) = Some k"
  shows "\<exists>stack' n'. eval_token c (stack, n) = Inr (stack', n') \<and> length stack' = k"
proof -
  consider (lit) "c \<notin> set [STAR, PLUS, QMARK, DOT, BAR]"
    | (unary) "c = STAR \<or> c = PLUS \<or> c = QMARK"
    | (binary) "c = DOT \<or> c = BAR"
    by auto
  then show ?thesis
  proof cases
    case lit
    with assms show ?thesis by (auto simp: token_depth_def eval_token_def Let_def)
  next
    case unary
    with assms obtain F rest where "stack = F # rest"
      by (cases stack) (auto simp: token_depth_def)
    with unary assms show ?thesis
      by (auto simp: token_depth_def eval_star eval_plus eval_option)
  next
    case binary
    with assms obtain F2 F1 rest where "stack = F2 # F1 # rest"
      by (cases stack; cases "tl stack") (auto simp: token_depth_def)
    with binary assms show ?thesis
      by (auto simp: token_depth_def eval_concat eval_union)
  qed
qed

lemma eval_tokens_depth:
  "tokens_depth p (length stack) = Some k \<Longrightarrow>
     \<exists>stack' n'. eval_tokens p (stack, n) = Inr (stack', n') \<and> length stack' = k"
proof (induction p arbitrary: stack n)
  case Nil
  then show ?case by simp
next
  case (Cons c p)
  from Cons.prems obtain k1 where t: "token_depth c (length stack) = Some k1"
    and r: "tokens_depth p k1 = Some k"
    by (auto split: option.splits)
  from eval_token_depth [OF t, of n] obtain st1 n1 where
    e: "eval_token c (stack, n) = Inr (st1, n1)" and l: "length st1 = k1" by blast
  from Cons.IH [of st1 n1] r l obtain stack' n' where
    "eval_tokens p (st1, n1) = Inr (stack', n')" "length stack' = k" by blast
  with e show ?case by simp
qed

lemma postfix_depth_one:
  assumes "tokens_depth p 0 = Some 1"
  shows "\<exists>N. postfix_to_nfa p = Inr N"
proof -
  from eval_tokens_depth [of p "[]" 1 0] assms obtain stack n where
    "eval_tokens p ([], 0) = Inr (stack, n)" "length stack = 1" by auto
  then show ?thesis by (simp add: postfix_to_nfa_def)
qed

lemma pending_Cons:
  "pending (c # st) = (if c = DOT \<or> c = BAR then Suc (pending st) else pending st)"
  by (simp add: pending_def)

lemma emit_depth:
  assumes "tokens_depth out 0 = Some (Suc (pending (tp # st)))"
    and "tp \<in> set [STAR, PLUS, QMARK, DOT, BAR]"
  shows "tokens_depth (out @ [tp]) 0 = Some (Suc (pending st))"
  using assms by (auto simp: tokens_depth_append token_depth_def pending_Cons)

lemma pop_ops_depth:
  assumes "op_stack st" "c \<in> set [STAR, PLUS, QMARK, DOT, BAR]"
    and "tokens_depth out 0 = Some (Suc (pending st))"
  shows "\<exists>out' st'. pop_ops c out st = Inr (out', st')
     \<and> tokens_depth out' 0 = Some (Suc (pending st')) \<and> op_stack st'
     \<and> count (mset st') LPAREN = count (mset st) LPAREN"
  using assms
proof (induction st arbitrary: out)
  case Nil
  then show ?case by simp
next
  case (Cons tp st)
  from Cons.prems(1) have tp: "tp \<in> set [LPAREN, STAR, PLUS, QMARK, DOT, BAR]"
    and st: "op_stack st"
    by (simp_all add: op_stack_Cons)
  show ?case
  proof (cases "tp = LPAREN")
    case True
    with Cons.prems show ?thesis by (auto simp: precedence_def)
  next
    case False
    with tp have op: "tp \<in> set [STAR, PLUS, QMARK, DOT, BAR]" by auto
    from Cons.IH [OF st Cons.prems(2) emit_depth [OF Cons.prems(3) op]]
    obtain out' st' where r: "pop_ops c (out @ [tp]) st = Inr (out', st')"
      "tokens_depth out' 0 = Some (Suc (pending st'))" "op_stack st'"
      "count (mset st') LPAREN = count (mset st) LPAREN"
      by blast
    show ?thesis
    proof (cases "the (precedence tp) \<ge> the (precedence c)")
      case True
      with op Cons.prems(2) r False show ?thesis
        by (auto simp: precedence_def)
    next
      case False
      with op Cons.prems show ?thesis
        by (auto simp: precedence_def)
    qed
  qed
qed

lemma pop_until_lparen_depth:
  assumes "op_stack st" "0 < count (mset st) LPAREN"
    and "tokens_depth out 0 = Some (Suc (pending st))"
  shows "\<exists>out' st'. pop_until_lparen out st = Inr (out', st')
     \<and> tokens_depth out' 0 = Some (Suc (pending st')) \<and> op_stack st'
     \<and> Suc (count (mset st') LPAREN) = count (mset st) LPAREN"
  using assms
proof (induction st arbitrary: out)
  case Nil
  then show ?case by simp
next
  case (Cons tp st)
  from Cons.prems(1) have tp: "tp \<in> set [LPAREN, STAR, PLUS, QMARK, DOT, BAR]"
    and st: "op_stack st"
    by (simp_all add: op_stack_Cons)
  show ?case
  proof (cases "tp = LPAREN")
    case True
    with Cons.prems st show ?thesis by (simp add: pending_Cons)
  next
    case False
    with tp have op: "tp \<in> set [STAR, PLUS, QMARK, DOT, BAR]" by auto
    from False Cons.prems(2) have "0 < count (mset st) LPAREN" by simp
    from Cons.IH [OF st this emit_depth [OF Cons.prems(3) op]] False
    show ?thesis by simp
  qed
qed

lemma flush_depth:
  assumes "op_stack st" "count (mset st) LPAREN = 0"
    and "tokens_depth out 0 = Some (Suc (pending st))"
  shows "tokens_depth (out @ st) 0 = Some 1"
  using assms
proof (induction st arbitrary: out)
  case Nil
  then show ?case by (simp add: pending_def)
next
  case (Cons tp st)
  from Cons.prems(1,2) have op: "tp \<in> set [STAR, PLUS, QMARK, DOT, BAR]"
    and st: "op_stack st" "count (mset st) LPAREN = 0"
    by (auto simp: op_stack_Cons split: if_splits)
  from Cons.IH [OF st emit_depth [OF Cons.prems(3) op]] show ?case by simp
qed

lemma insert_concat_hd: "insert_concat (c # cs) = c # tl (insert_concat (c # cs))"
  by (cases cs) auto

lemma tl_insert_concat:
  "tl (insert_concat (c # nxt # rest)) =
     (if c \<notin> set [LPAREN, BAR] \<and> nxt \<notin> set [RPAREN, BAR, STAR, PLUS, QMARK]
      then [DOT] else []) @ nxt # tl (insert_concat (nxt # rest))"
  using insert_concat_hd [of nxt rest] by simp

lemma shunt_operator:
  assumes "c \<in> set [STAR, PLUS, QMARK, DOT, BAR]" "pop_ops c out st = Inr (out', st')"
  shows "shunt (c # cs) out st = shunt cs out' (c # st')"
  using assms by auto

lemma shunt_literal:
  assumes "literal_char c"
  shows "shunt (c # cs) out st = shunt cs (out @ [c]) st"
  using assms by (auto simp: literal_char_def)

lemma shunt_well_formed:
  assumes "well_formed_from X d cs" "X = (c \<notin> set [LPAREN, BAR])"
    and "op_stack st" "count (mset st) LPAREN = d"
    and "tokens_depth out 0 = Some ((if X then 1 else 0) + pending st)"
  shows "\<exists>out' st'. shunt (tl (insert_concat (c # cs))) out st = Inr (out', st')
     \<and> tokens_depth (out' @ st') 0 = Some 1"
  using assms
proof (induction cs arbitrary: X d c out st)
  case Nil
  then have "X" "d = 0" by simp_all
  with Nil flush_depth [of st out] show ?case by simp
next
  case (Cons nxt rest)
  note wf = Cons.prems(1) and X = Cons.prems(2) and os = Cons.prems(3)
    and cnt = Cons.prems(4) and dp = Cons.prems(5)
  have dot: "\<exists>o1 s1. shunt (tl (insert_concat (c # nxt # rest))) out st
        = shunt (nxt # tl (insert_concat (nxt # rest))) o1 s1
      \<and> op_stack s1 \<and> count (mset s1) LPAREN = d \<and> tokens_depth o1 0 = Some (pending s1)"
    if n: "nxt = LPAREN \<or> literal_char nxt"
  proof (cases X)
    case True
    from n have nn: "nxt \<notin> set [RPAREN, BAR, STAR, PLUS, QMARK]"
      by (auto simp: literal_char_def)
    from True dp have "tokens_depth out 0 = Some (Suc (pending st))" by simp
    from pop_ops_depth [OF os _ this, of DOT] obtain o1 s1 where
      p: "pop_ops DOT out st = Inr (o1, s1)" "tokens_depth o1 0 = Some (Suc (pending s1))"
        "op_stack s1" "count (mset s1) LPAREN = count (mset st) LPAREN"
      by auto
    have "shunt (tl (insert_concat (c # nxt # rest))) out st
        = shunt (nxt # tl (insert_concat (nxt # rest))) o1 (DOT # s1)"
      unfolding tl_insert_concat using True X nn shunt_operator [OF _ p(1), of _] by simp
    moreover have "op_stack (DOT # s1)" "count (mset (DOT # s1)) LPAREN = d"
      "tokens_depth o1 0 = Some (pending (DOT # s1))"
      using p cnt by (simp_all add: op_stack_Cons pending_Cons)
    ultimately show ?thesis by blast
  next
    case False
    with X have "shunt (tl (insert_concat (c # nxt # rest))) out st
        = shunt (nxt # tl (insert_concat (nxt # rest))) out st"
      unfolding tl_insert_concat by simp
    with False os cnt dp show ?thesis by auto
  qed
  consider (lp) "nxt = LPAREN" | (lit) "nxt \<noteq> LPAREN" "literal_char nxt"
    | (unary) "X" "nxt \<in> set [STAR, PLUS, QMARK]"
    | (bar) "X" "nxt = BAR" | (rp) "X" "nxt = RPAREN" "0 < d"
    using wf by (auto simp: literal_char_def split: if_splits)
  then show ?case
  proof cases
    case lp
    from dot lp obtain o1 s1 where
      s: "shunt (tl (insert_concat (c # nxt # rest))) out st
          = shunt (nxt # tl (insert_concat (nxt # rest))) o1 s1"
      and i: "op_stack s1" "count (mset s1) LPAREN = d" "tokens_depth o1 0 = Some (pending s1)"
      by blast
    from wf lp have wf': "well_formed_from False (Suc d) rest" by simp
    have "\<exists>out' st'. shunt (tl (insert_concat (nxt # rest))) o1 (nxt # s1) = Inr (out', st')
        \<and> tokens_depth (out' @ st') 0 = Some 1"
      by (rule Cons.IH [OF wf']) (use lp i in \<open>simp_all add: op_stack_Cons pending_Cons\<close>)
    with s lp show ?thesis by simp
  next
    case lit
    from dot lit obtain o1 s1 where
      s: "shunt (tl (insert_concat (c # nxt # rest))) out st
          = shunt (nxt # tl (insert_concat (nxt # rest))) o1 s1"
      and i: "op_stack s1" "count (mset s1) LPAREN = d" "tokens_depth o1 0 = Some (pending s1)"
      by blast
    from wf lit have wf': "well_formed_from True d rest" by simp
    have "\<exists>out' st'. shunt (tl (insert_concat (nxt # rest))) (o1 @ [nxt]) s1 = Inr (out', st')
        \<and> tokens_depth (out' @ st') 0 = Some 1"
      by (rule Cons.IH [OF wf'])
         (use lit i in \<open>auto simp: literal_char_def tokens_depth_append token_depth_def\<close>)
    with s shunt_literal [OF lit(2)] show ?thesis by simp
  next
    case unary
    from unary(1) dp have d1: "tokens_depth out 0 = Some (Suc (pending st))" by simp
    from unary(2) have op: "nxt \<in> set [STAR, PLUS, QMARK, DOT, BAR]" by auto
    from pop_ops_depth [OF os op d1] obtain o1 s1 where
      p: "pop_ops nxt out st = Inr (o1, s1)" "tokens_depth o1 0 = Some (Suc (pending s1))"
        "op_stack s1" "count (mset s1) LPAREN = count (mset st) LPAREN"
      by auto
    have s: "shunt (tl (insert_concat (c # nxt # rest))) out st
        = shunt (tl (insert_concat (nxt # rest))) o1 (nxt # s1)"
      unfolding tl_insert_concat using unary(2) shunt_operator [OF op p(1)] by auto
    from wf unary have wf': "well_formed_from True d rest"
      by (auto simp: literal_char_def)
    have "\<exists>out' st'. shunt (tl (insert_concat (nxt # rest))) o1 (nxt # s1) = Inr (out', st')
        \<and> tokens_depth (out' @ st') 0 = Some 1"
      by (rule Cons.IH [OF wf'])
         (use unary(2) p cnt in \<open>auto simp: op_stack_Cons pending_Cons\<close>)
    with s show ?thesis by simp
  next
    case bar
    from bar(1) dp have d1: "tokens_depth out 0 = Some (Suc (pending st))" by simp
    from bar(2) have op: "nxt \<in> set [STAR, PLUS, QMARK, DOT, BAR]" by auto
    from pop_ops_depth [OF os op d1] obtain o1 s1 where
      p: "pop_ops nxt out st = Inr (o1, s1)" "tokens_depth o1 0 = Some (Suc (pending s1))"
        "op_stack s1" "count (mset s1) LPAREN = count (mset st) LPAREN"
      by auto
    have s: "shunt (tl (insert_concat (c # nxt # rest))) out st
        = shunt (tl (insert_concat (nxt # rest))) o1 (nxt # s1)"
      unfolding tl_insert_concat using bar(2) shunt_operator [OF op p(1)] by auto
    from wf bar have wf': "well_formed_from False d rest"
      by (auto simp: literal_char_def)
    have "\<exists>out' st'. shunt (tl (insert_concat (nxt # rest))) o1 (nxt # s1) = Inr (out', st')
        \<and> tokens_depth (out' @ st') 0 = Some 1"
      by (rule Cons.IH [OF wf'])
         (use bar(2) p cnt in \<open>auto simp: op_stack_Cons pending_Cons\<close>)
    with s show ?thesis by simp
  next
    case rp
    from rp(1) dp have d1: "tokens_depth out 0 = Some (Suc (pending st))" by simp
    from rp(3) cnt have "0 < count (mset st) LPAREN" by simp
    from pop_until_lparen_depth [OF os this d1] obtain o1 s1 where
      p: "pop_until_lparen out st = Inr (o1, s1)" "tokens_depth o1 0 = Some (Suc (pending s1))"
        "op_stack s1" "Suc (count (mset s1) LPAREN) = count (mset st) LPAREN"
      by auto
    have s: "shunt (tl (insert_concat (c # nxt # rest))) out st
        = shunt (tl (insert_concat (nxt # rest))) o1 s1"
      unfolding tl_insert_concat using rp(2) p(1) by simp
    from wf rp have wf': "well_formed_from True (d - 1) rest"
      by (auto simp: literal_char_def)
    have "\<exists>out' st'. shunt (tl (insert_concat (nxt # rest))) o1 s1 = Inr (out', st')
        \<and> tokens_depth (out' @ st') 0 = Some 1"
      by (rule Cons.IH [OF wf'])
         (use rp(2) p cnt in \<open>auto simp: op_stack_Cons pending_Cons\<close>)
    with s show ?thesis by simp
  qed
qed

lemma well_formed_converted:
  assumes "well_formed r"
  shows "\<exists>p. infix_to_postfix r = Inr p \<and> tokens_depth p 0 = Some 1"
proof -
  from assms obtain c cs where r: "r = c # cs"
    by (cases r) (auto simp: well_formed_def)
  from assms r consider (lp) "c = LPAREN" "well_formed_from False 1 cs"
    | (lit) "literal_char c" "c \<noteq> LPAREN" "well_formed_from True 0 cs"
    by (auto simp: well_formed_def split: if_splits)
  then have "\<exists>out st. shunt (insert_concat r) [] [] = Inr (out, st)
      \<and> tokens_depth (out @ st) 0 = Some 1"
  proof cases
    case lp
    have "\<exists>out' st'. shunt (tl (insert_concat (c # cs))) [] [c] = Inr (out', st')
        \<and> tokens_depth (out' @ st') 0 = Some 1"
      by (rule shunt_well_formed [OF lp(2)])
         (use lp(1) in \<open>simp_all add: op_stack_def pending_def\<close>)
    then show ?thesis
      unfolding r by (subst insert_concat_hd) (use lp(1) in simp)
  next
    case lit
    have "\<exists>out' st'. shunt (tl (insert_concat (c # cs))) [c] [] = Inr (out', st')
        \<and> tokens_depth (out' @ st') 0 = Some 1"
      by (rule shunt_well_formed [OF lit(3)])
         (use lit(1) in \<open>auto simp: op_stack_def pending_def literal_char_def token_depth_def\<close>)
    then show ?thesis
      unfolding r by (subst insert_concat_hd) (use shunt_literal [OF lit(1)] in simp)
  qed
  then show ?thesis by (auto simp: infix_to_postfix_def)
qed

lemma well_formed_balanced: "well_formed_from X d r \<Longrightarrow> balanced d r"
  by (induction r arbitrary: X d) (auto simp: literal_char_def split: if_splits)

lemma well_formed_returns:
  assumes "well_formed r"
  shows "\<exists>N. regex_to_nfa r = Inr N"
proof -
  from well_formed_converted [OF assms] obtain p where
    "infix_to_postfix r = Inr p" "tokens_depth p 0 = Some 1" by blast
  with postfix_depth_one [of p] show ?thesis by (auto simp: regex_to_nfa_def)
qed

text \<open>
  Claim C4. For every well-formed expression, \<open>regex_to_nfa\<close> returns an automaton, and the
  number of non-epsilon transitions of that automaton, counted as triples of a state, a label
  other than the epsilon symbol and a destination, equals the number of literal characters of
  the expression.
\<close>

theorem non_epsilon_transitions_count:
  assumes "well_formed r"
  shows "\<exists>N. regex_to_nfa r = Inr N
     \<and> non_epsilon_transitions N = length (filter literal_char r)"
proof -
  from well_formed_returns [OF assms] obtain N where N: "regex_to_nfa r = Inr N" by blast
  from assms have "balanced 0 r" by (simp add: well_formed_def well_formed_balanced)
  from balanced_literal_count [OF N this] N show ?thesis by blast
qed

theorem non_epsilon_transitions_count_witness:
  "well_formed (str ''(a|b)?a'')
   \<and> length (filter literal_char (str ''(a|b)?a'')) = 3
   \<and> regex_to_nfa (str ''(a|b)?a'')
      = Inr \<lparr>start_state = 6, accept_state = 9, transitions = example_table\<rparr>
   \<and> non_epsilon_transitions
        \<lparr>start_state = 6, accept_state = 9, transitions = example_table\<rparr> = 3"
proof -
  have w: "well_formed (str ''(a|b)?a'')" by (simp add: str_def well_formed_def literal_char_def)
  have l: "length (filter literal_char (str ''(a|b)?a'')) = 3"
    by (simp add: str_def literal_char_def)
  from non_epsilon_transitions_count [OF w] l example_nfa w
  show ?thesis by auto
qed

end
